theory Spec2Isabelle
  imports Complex_Main
begin

section \<open>Characters and strings\<close>

text \<open>
  Python strings are sequences of code points. The model uses \<open>char list\<close> and reads each
  \<open>char\<close> as the code point of the same number, so it covers texts over the code points
  0..255 (Latin-1). The character categories below are Python's Unicode categories
  restricted to that range.
\<close>

abbreviation NL :: char where "NL \<equiv> CHR 0x0A"
abbreviation CR :: char where "CR \<equiv> CHR 0x0D"

definition code :: "char \<Rightarrow> nat" where
  "code c = of_char c"

text \<open>\<open>str.isspace\<close> / \<open>\s\<close>: TAB..CR, FS..US, space, NEL, NBSP.\<close>

definition is_space :: "char \<Rightarrow> bool" where
  "is_space c = ((9 \<le> code c \<and> code c \<le> 13) \<or> (28 \<le> code c \<and> code c \<le> 32)
                 \<or> code c = 133 \<or> code c = 160)"

text \<open>\<open>[0-9]\<close>; also \<open>\d\<close>, whose Unicode decimal digits below 256 are the ASCII ones.\<close>

definition is_digit :: "char \<Rightarrow> bool" where
  "is_digit c = (48 \<le> code c \<and> code c \<le> 57)"

text \<open>\<open>[A-Za-z0-9]\<close>\<close>

definition is_alnum_ascii :: "char \<Rightarrow> bool" where
  "is_alnum_ascii c = ((65 \<le> code c \<and> code c \<le> 90) \<or> (97 \<le> code c \<and> code c \<le> 122)
                       \<or> is_digit c)"

text \<open>
  \<open>\w\<close> of a \<open>str\<close> pattern without \<open>re.ASCII\<close>: alphanumeric code points and the
  underscore. Below 256 the non-ASCII ones are the letters of Latin-1, the ordinal
  indicators, the micro sign, the superscript digits and the vulgar fractions.
\<close>

definition is_word :: "char \<Rightarrow> bool" where
  "is_word c = (is_alnum_ascii c \<or> c = CHR ''_''
      \<or> code c = 170 \<or> code c = 178 \<or> code c = 179 \<or> code c = 181
      \<or> code c = 185 \<or> code c = 186 \<or> (188 \<le> code c \<and> code c \<le> 190)
      \<or> (192 \<le> code c \<and> code c \<le> 214) \<or> (216 \<le> code c \<and> code c \<le> 246)
      \<or> (248 \<le> code c \<and> code c \<le> 255))"

text \<open>Lower-casing, used by \<open>re.IGNORECASE\<close> to compare a literal with a text character.\<close>

definition lower :: "char \<Rightarrow> char" where
  "lower c = (if (65 \<le> code c \<and> code c \<le> 90)
                 \<or> (192 \<le> code c \<and> code c \<le> 222 \<and> code c \<noteq> 215)
              then char_of (code c + 32) else c)"

text \<open>\<open>str.strip()\<close> with no argument removes leading and trailing whitespace.\<close>

definition lstrip :: "string \<Rightarrow> string" where
  "lstrip s = dropWhile is_space s"

definition rstrip :: "string \<Rightarrow> string" where
  "rstrip s = rev (dropWhile is_space (rev s))"

definition strip :: "string \<Rightarrow> string" where
  "strip s = rstrip (lstrip s)"

text \<open>\<open>sep.join(xs)\<close>\<close>

fun join :: "string \<Rightarrow> string list \<Rightarrow> string" where
  "join sep [] = []"
| "join sep [x] = x"
| "join sep (x # y # ys) = x @ sep @ join sep (y # ys)"

section \<open>Regular expressions as the scripts use them\<close>

text \<open>
  The patterns of the scripts use literals, character sets, the anchors \<open>^\<close> and \<open>$\<close>,
  concatenation, named and numbered groups, the greedy quantifiers \<open>*\<close>, \<open>+\<close> over one
  character set, the lazy \<open>+?\<close> over one character set and the greedy \<open>?\<close>. The matcher
  is a backtracking one: it lists the ways a pattern can match at a position in the order
  in which Python's engine would try them, so the head of the list is the match Python
  reports. A matcher state is the position in the subject string, the rest of the subject
  from that position and the groups captured so far (latest first).
\<close>

datatype rx =
    Lit char
  | Cls "char \<Rightarrow> bool"
  | Bol
  | Eol
  | Seq rx rx
  | Star "char \<Rightarrow> bool"
  | Plus "char \<Rightarrow> bool"
  | PlusLazy "char \<Rightarrow> bool"
  | Opt rx
  | Group string rx

type_synonym groups = "(string \<times> string) list"
type_synonym mstate = "nat \<times> string \<times> groups"

definition ch_eq :: "bool \<Rightarrow> char \<Rightarrow> char \<Rightarrow> bool" where
  "ch_eq ic c x = (if ic then lower x = lower c else x = c)"

text \<open>Greedy repetition of a set: the longest run first, then each shorter one.\<close>

fun star_greedy :: "(char \<Rightarrow> bool) \<Rightarrow> nat \<Rightarrow> string \<Rightarrow> groups \<Rightarrow> mstate list" where
  "star_greedy f p [] g = [(p, [], g)]"
| "star_greedy f p (x # t) g =
     (if f x then star_greedy f (Suc p) t g @ [(p, x # t, g)] else [(p, x # t, g)])"

text \<open>Lazy repetition of a set: the shortest run first, then each longer one.\<close>

fun star_lazy :: "(char \<Rightarrow> bool) \<Rightarrow> nat \<Rightarrow> string \<Rightarrow> groups \<Rightarrow> mstate list" where
  "star_lazy f p [] g = [(p, [], g)]"
| "star_lazy f p (x # t) g =
     (p, x # t, g) # (if f x then star_lazy f (Suc p) t g else [])"

fun rx_match :: "bool \<Rightarrow> rx \<Rightarrow> mstate \<Rightarrow> mstate list" where
  "rx_match ic (Lit c) (p, s, g) =
     (case s of [] \<Rightarrow> [] | x # t \<Rightarrow> if ch_eq ic c x then [(Suc p, t, g)] else [])"
| "rx_match ic (Cls f) (p, s, g) =
     (case s of [] \<Rightarrow> [] | x # t \<Rightarrow> if f x then [(Suc p, t, g)] else [])"
| "rx_match ic Bol (p, s, g) = (if p = 0 then [(p, s, g)] else [])"
| "rx_match ic Eol (p, s, g) = (if s = [] \<or> s = [NL] then [(p, s, g)] else [])"
| "rx_match ic (Seq a b) st = concat (map (rx_match ic b) (rx_match ic a st))"
| "rx_match ic (Star f) (p, s, g) = star_greedy f p s g"
| "rx_match ic (Plus f) (p, s, g) =
     (case s of [] \<Rightarrow> [] | x # t \<Rightarrow> if f x then star_greedy f (Suc p) t g else [])"
| "rx_match ic (PlusLazy f) (p, s, g) =
     (case s of [] \<Rightarrow> [] | x # t \<Rightarrow> if f x then star_lazy f (Suc p) t g else [])"
| "rx_match ic (Opt r) st = rx_match ic r st @ [st]"
| "rx_match ic (Group n r) (p, s, g) =
     map (\<lambda>(p', s', g'). (p', s', (n, take (p' - p) s) # g')) (rx_match ic r (p, s, g))"

text \<open>A sequence of literals, and the patterns in sequence.\<close>

fun lits :: "string \<Rightarrow> rx list" where
  "lits s = map Lit s"

fun seqs :: "rx list \<Rightarrow> rx" where
  "seqs [] = Star (\<lambda>c. False)"
| "seqs [r] = r"
| "seqs (r # rs) = Seq r (seqs rs)"

record rmatch =
  m_start :: nat
  m_end :: nat
  m_groups :: groups

text \<open>\<open>m.group(name)\<close>: \<open>None\<close> when the group took no part in the match.\<close>

definition group :: "rmatch \<Rightarrow> string \<Rightarrow> string option" where
  "group m n = map_of (m_groups m) n"

text \<open>\<open>pattern.match(s)\<close>: the first way the pattern matches at position 0.\<close>

definition py_match :: "bool \<Rightarrow> rx \<Rightarrow> string \<Rightarrow> rmatch option" where
  "py_match ic r s =
     (case rx_match ic r (0, s, []) of
        [] \<Rightarrow> None
      | (p', s', g) # _ \<Rightarrow> Some \<lparr>m_start = 0, m_end = p', m_groups = g\<rparr>)"

text \<open>
  \<open>pattern.finditer(s)\<close>: scan from the left; at each position take the first way the
  pattern matches there, report it and go on from its end; where nothing matches go on
  one character further. After an empty match the next attempt at the same position
  must consume something (the engine's \<open>must_advance\<close>).
\<close>

definition first_match :: "bool \<Rightarrow> rx \<Rightarrow> bool \<Rightarrow> nat \<Rightarrow> string \<Rightarrow> mstate option" where
  "first_match ic r adv p s =
     (case filter (\<lambda>(p', s', g). \<not> adv \<or> p' \<noteq> p) (rx_match ic r (p, s, [])) of
        [] \<Rightarrow> None
      | st # _ \<Rightarrow> Some st)"

function finditer_from :: "bool \<Rightarrow> rx \<Rightarrow> bool \<Rightarrow> nat \<Rightarrow> string \<Rightarrow> rmatch list" where
  "finditer_from ic r adv p s =
     (case first_match ic r adv p s of
        Some (p', s', g) \<Rightarrow>
          \<lparr>m_start = p, m_end = p', m_groups = g\<rparr> #
            (if length s' < length s then finditer_from ic r False p' s'
             else if \<not> adv then finditer_from ic r True p s
             else [])
      | None \<Rightarrow> (case s of [] \<Rightarrow> [] | x # t \<Rightarrow> finditer_from ic r False (Suc p) t))"
  by pat_completeness auto
termination
  by (relation "measure (\<lambda>(ic, r, adv, p, s). 2 * length s + (if adv then 0 else 1))") auto

declare finditer_from.simps [simp del]

definition finditer :: "bool \<Rightarrow> rx \<Rightarrow> string \<Rightarrow> rmatch list" where
  "finditer ic r s = finditer_from ic r False 0 s"

section \<open>The patterns\<close>

text \<open>
  \<open>OLD_BLOCK_RE\<close>, compiled with \<open>re.IGNORECASE\<close>:
  \<^verbatim>\<open>(?P<prefix>\|\s*source\s*=\s*\n)\<close>
  \<^verbatim>\<open>\s*:\s*\{\{\s*Internet\s+Archive\s+link\s*\|\s*(?P<iaid>[^}\n\r]+?)\s*\}\}\s*\n\<close>
  \<^verbatim>\<open>\s*:\s*(?P<pdf>https?://archive\.org/download/[\w\-\./]+?\.pdf)\s*\n?\<close>
\<close>

definition iaid_char :: "char \<Rightarrow> bool" where
  "iaid_char c = (c \<noteq> CHR ''}'' \<and> c \<noteq> NL \<and> c \<noteq> CR)"

definition path_char :: "char \<Rightarrow> bool" where
  "path_char c = (is_word c \<or> c = CHR ''-'' \<or> c = CHR ''.'' \<or> c = CHR ''/'')"

definition not_newline :: "char \<Rightarrow> bool" where
  "not_newline c = (c \<noteq> NL)"

definition range_sep :: "char \<Rightarrow> bool" where
  "range_sep c = (c = CHR ''-'' \<or> c = CHR '':'')"

definition pdf_url_rx :: rx where
  "pdf_url_rx = seqs (lits ''http'' @ [Opt (Lit CHR ''s'')] @ lits ''://archive.org/download/''
                       @ [PlusLazy path_char] @ lits ''.pdf'')"

text \<open>The parts of the pattern, in the order of the source:
  \<^verbatim>\<open>\s*source\s*=\s*\n\<close> after the bar of the header line;
  \<^verbatim>\<open>\s*:\s*\{\{\s*Internet\s+Archive\s+link\s*\<close> before the bar of the template;
  \<^verbatim>\<open>\s*\}\}\s*\n\<close> after the identifier;
  \<^verbatim>\<open>\s*:\s*\<close> before the link of the PDF and \<^verbatim>\<open>\s*\n?\<close> after it.\<close>

definition prefix_tail_rx :: rx where
  "prefix_tail_rx = seqs ([Star is_space] @ lits ''source''
                          @ [Star is_space, Lit CHR ''='', Star is_space, Lit NL])"

definition old_prefix_rx :: rx where
  "old_prefix_rx = Seq (Lit CHR ''|'') prefix_tail_rx"

definition link_head_rx :: rx where
  "link_head_rx = seqs ([Star is_space, Lit CHR '':'', Star is_space, Lit CHR ''{'', Lit CHR ''{'',
                         Star is_space] @ lits ''Internet'' @ [Plus is_space] @ lits ''Archive''
                         @ [Plus is_space] @ lits ''link'' @ [Star is_space])"

definition link_tail_rx :: rx where
  "link_tail_rx = seqs [Star is_space, Lit CHR ''}'', Lit CHR ''}'', Star is_space, Lit NL]"

definition old_link_rx :: rx where
  "old_link_rx = seqs [link_head_rx, Lit CHR ''|'', Star is_space,
                       Group ''iaid'' (PlusLazy iaid_char), link_tail_rx]"

definition pdf_head_rx :: rx where
  "pdf_head_rx = seqs [Star is_space, Lit CHR '':'', Star is_space]"

definition pdf_tail_rx :: rx where
  "pdf_tail_rx = Seq (Star is_space) (Opt (Lit NL))"

definition old_pdf_rx :: rx where
  "old_pdf_rx = seqs [pdf_head_rx, Group ''pdf'' pdf_url_rx, pdf_tail_rx]"

definition OLD_BLOCK_RE :: rx where
  "OLD_BLOCK_RE = Seq (Group ''prefix'' old_prefix_rx) (Seq old_link_rx old_pdf_rx)"

text \<open>
  \<open>URN_FROM_IA_RE\<close>, compiled with \<open>re.ASCII\<close>:
  \<^verbatim>\<open>^(?P<prefix>[A-Za-z0-9]+)_(?P<number>\d+)(?:_.*)?$\<close>
\<close>

definition URN_FROM_IA_RE :: rx where
  "URN_FROM_IA_RE = seqs [Bol, Group ''prefix'' (Plus is_alnum_ascii), Lit CHR ''_'',
                          Group ''number'' (Plus is_digit),
                          Opt (Seq (Lit CHR ''_'') (Star not_newline)), Eol]"

text \<open>The check of the PDF link in \<open>build_new_source_block\<close>:
  \<^verbatim>\<open>^https?://archive\.org/download/[\w\-\./]+?\.pdf$\<close>\<close>

definition PDF_URL_RE :: rx where
  "PDF_URL_RE = seqs [Bol, pdf_url_rx, Eol]"

text \<open>The pattern of \<open>RANGE\<close> in \<open>apply_slice_records\<close>:
  \<^verbatim>\<open>^\s*(\d+)\s*[-:]\s*(\d+)\s*$\<close>\<close>

definition RANGE_RE :: rx where
  "RANGE_RE = seqs [Bol, Star is_space, Group ''1'' (Plus is_digit), Star is_space,
                    Cls range_sep, Star is_space, Group ''2'' (Plus is_digit),
                    Star is_space, Eol]"

section \<open>Errors\<close>

text \<open>
  The scripts stop a function with \<open>SystemExit(1)\<close> after logging what went wrong. Each
  kind of logged failure is one error value; \<open>PyException\<close> stands for an exception that
  is not a \<open>SystemExit\<close>.
\<close>

datatype error =
    MalformedIdentifier
  | MalformedUrl
  | AmbiguousEditTarget
  | ConflictingSliceMode
  | SliceOutOfRange
  | InvalidRangeFormat
  | InvalidArgument
  | ExcelFileNotFound
  | ExcelReadFailed
  | MissingColumn
  | InvalidIdentifierValue
  | NoValidRecords
  | TooManyRecords
  | NoRecords
  | InvalidRecord
  | FetchFailed
  | PageNotFound
  | NoRevisionContent
  | MissingConflictToken
  | TokenUnavailable
  | AuthRetryFailed
  | EditRejected
  | SaveTransportError
  | UnexpectedEditResponse
  | WorkbookUnreadable
  | SheetIndexOutOfRange
  | ExcelWriteFailed
  | LoginFailed
  | UnexpectedTopLevelError
  | PyException string


section \<open>Identifier deriver\<close>

text \<open>What an f-string prints for the value of \<open>m.group(..)\<close>.\<close>

definition fmt :: "string option \<Rightarrow> string" where
  "fmt v = (case v of None \<Rightarrow> ''None'' | Some s \<Rightarrow> s)"

definition derive_delpher_urn :: "string \<Rightarrow> error + string" where
  "derive_delpher_urn ia_id =
     (if strip ia_id = [] then Inl MalformedIdentifier
      else (case py_match False URN_FROM_IA_RE (strip ia_id) of
              None \<Rightarrow> Inl MalformedIdentifier
            | Some m \<Rightarrow> Inr (fmt (group m ''prefix'') @ '':'' @ fmt (group m ''number''))))"

section \<open>Block matcher and transformer\<close>

definition build_new_source_block :: "string \<Rightarrow> string \<Rightarrow> error + string" where
  "build_new_source_block ia_id pdf_url =
     (if strip ia_id = [] then Inl MalformedIdentifier
      else if strip pdf_url = [] then Inl MalformedUrl
      else let s_pdf = strip pdf_url in
        (case py_match False PDF_URL_RE s_pdf of
           None \<Rightarrow> Inl MalformedUrl
         | Some _ \<Rightarrow>
            (case derive_delpher_urn ia_id of
               Inl e \<Rightarrow> Inl e
             | Inr urn \<Rightarrow>
                 let ia_link_tpl = ''{{Internet Archive link|'' @ ia_id @ ''}}'';
                     delpher_site = ''https://resolver.kb.nl/resolve?urn='' @ urn;
                     delpher_pdf = ''https://resolver.kb.nl/resolve?urn='' @ urn @ '':mpeg21:pdf''
                 in Inr (join [NL]
                      [''Internet Archive'',
                       ''* Website: '' @ ia_link_tpl,
                       ''* Direct download: '' @ s_pdf,
                       ''Delpher'',
                       ''* Website: '' @ delpher_site,
                       ''* Direct download: '' @ delpher_pdf]))))"

definition transform_wikitext :: "string \<Rightarrow> error + string" where
  "transform_wikitext text =
     (let matches = finditer True OLD_BLOCK_RE text in
      if length matches = 0 then Inr text
      else if length matches > 1 then Inl AmbiguousEditTarget
      else
        (case matches of
           [] \<Rightarrow> Inr text
         | m # _ \<Rightarrow>
            (case (group m ''prefix'', group m ''iaid'', group m ''pdf'') of
               (Some prefix, Some iaid0, Some pdf0) \<Rightarrow>
                 let iaid = strip iaid0; pdf = strip pdf0 in
                 (case derive_delpher_urn iaid of
                    Inl e \<Rightarrow> Inl e
                  | Inr urn \<Rightarrow>
                     (case build_new_source_block iaid pdf of
                        Inl e \<Rightarrow> Inl e
                      | Inr new_block \<Rightarrow>
                          Inr (take (m_start m) text @ prefix @ new_block @ [NL]
                               @ drop (m_end m) text)))
             | _ \<Rightarrow> Inl (PyException ''AttributeError''))))"

section \<open>Words accepted by a pattern\<close>

text \<open>
  The words a pattern can consume, without the anchors' conditions on the context and
  without the order of the attempts. The matcher is related to it below.
\<close>


fun accepts :: "bool \<Rightarrow> rx \<Rightarrow> string \<Rightarrow> bool" where
  "accepts ic (Lit c) w = (\<exists>x. w = [x] \<and> ch_eq ic c x)"
| "accepts ic (Cls f) w = (\<exists>x. w = [x] \<and> f x)"
| "accepts ic Bol w = (w = [])"
| "accepts ic Eol w = (w = [])"
| "accepts ic (Seq a b) w = (\<exists>u v. w = u @ v \<and> accepts ic a u \<and> accepts ic b v)"
| "accepts ic (Star f) w = (\<forall>x\<in>set w. f x)"
| "accepts ic (Plus f) w = (w \<noteq> [] \<and> (\<forall>x\<in>set w. f x))"
| "accepts ic (PlusLazy f) w = (w \<noteq> [] \<and> (\<forall>x\<in>set w. f x))"
| "accepts ic (Opt r) w = (w = [] \<or> accepts ic r w)"
| "accepts ic (Group n r) w = accepts ic r w"

fun anchor_free :: "rx \<Rightarrow> bool" where
  "anchor_free Bol = False"
| "anchor_free Eol = False"
| "anchor_free (Seq a b) = (anchor_free a \<and> anchor_free b)"
| "anchor_free (Opt r) = anchor_free r"
| "anchor_free (Group n r) = anchor_free r"
| "anchor_free _ = True"

fun names :: "rx \<Rightarrow> string set" where
  "names (Seq a b) = names a \<union> names b"
| "names (Opt r) = names r"
| "names (Group n r) = insert n (names r)"
| "names _ = {}"

section \<open>Example texts\<close>

definition old_block_example :: string where
  "old_block_example = ''|source ='' @ [NL] @ '':{{Internet Archive link|ddd_010124175_mpeg21}}'' @ [NL]
     @ '':https://archive.org/download/ddd_010124175_mpeg21/ddd_010124175_mpeg21.pdf'' @ [NL]"

definition two_blocks_example :: string where
  "two_blocks_example = old_block_example @ ''}}'' @ [NL] @ old_block_example"

section \<open>The identifier pattern in the words of the specification\<close>

text \<open>
  The specification gives the shape of an archive identifier as
  \<^verbatim>\<open>^{alnum+}_{digits+}(_.*)?$\<close>: a non-empty run of ASCII letters and digits, an
  underscore, a non-empty run of digits, and then either nothing or an underscore followed
  by any characters other than a line break. \<open>urn_shape\<close> decides that shape by reading the
  string from the left; it is written from the specification, not from the code.
\<close>

definition urn_shape :: "string \<Rightarrow> bool" where
  "urn_shape s =
     (let p = takeWhile is_alnum_ascii s; r = dropWhile is_alnum_ascii s in
      p \<noteq> [] \<and>
      (case r of
         [] \<Rightarrow> False
       | c # r' \<Rightarrow> c = CHR ''_'' \<and>
           (let n = takeWhile is_digit r'; suf = dropWhile is_digit r' in
            n \<noteq> [] \<and> (case suf of [] \<Rightarrow> True | d # q \<Rightarrow> d = CHR ''_'' \<and> NL \<notin> set q))))"

section \<open>Auxiliary notions for the proofs\<close>

definition dead_on :: "(char \<Rightarrow> bool) \<Rightarrow> (mstate \<Rightarrow> mstate list) \<Rightarrow> bool" where
  "dead_on f k = (\<forall>p x t g. f x \<longrightarrow> k (p, x # t, g) = [])"

definition urn_tail_rx :: rx where
  "urn_tail_rx = Seq (Opt (Seq (Lit CHR ''_'') (Star not_newline))) Eol"

fun ends_eol :: "rx \<Rightarrow> bool" where
  "ends_eol Eol = True"
| "ends_eol (Seq a b) = ends_eol b"
| "ends_eol _ = False"

section \<open>Workload slicer\<close>

text \<open>\<open>int(s)\<close> for a string of decimal digits.\<close>

definition int_of_digits :: "string \<Rightarrow> int" where
  "int_of_digits s = foldl (\<lambda>a c. 10 * a + (int (code c) - 48)) 0 s"

text \<open>\<open>str(n)\<close> for an integer.\<close>

fun digits_of_nat :: "nat \<Rightarrow> string" where
  "digits_of_nat n =
     (if n < 10 then [char_of (48 + n)]
      else digits_of_nat (n div 10) @ [char_of (48 + n mod 10)])"

definition str_of_int :: "int \<Rightarrow> string" where
  "str_of_int i = (if i < 0 then CHR ''-'' # digits_of_nat (nat (- i)) else digits_of_nat (nat i))"

record wrec =
  pageid :: int
  mid :: string
  title :: "string option"

text \<open>\<open>xs[i:j]\<close> for \<open>0 \<le> i\<close>, \<open>0 \<le> j\<close>.\<close>

definition slice :: "'a list \<Rightarrow> nat \<Rightarrow> nat \<Rightarrow> 'a list" where
  "slice xs i j = drop i (take j xs)"

text \<open>
  \<open>apply_slice_records\<close> reads the globals \<open>HEAD\<close> (an integer, 0 when the environment
  does not set it) and \<open>RANGE\<close> (a string); they are parameters here.
\<close>

definition apply_slice_records :: "int \<Rightarrow> string \<Rightarrow> 'a list \<Rightarrow> error + 'a list" where
  "apply_slice_records HEAD RANGE records =
     (let total = int (length records) in
      if total = 0 then Inr records
      else
        let has_range = (RANGE \<noteq> [] \<and> strip RANGE \<noteq> []);
            has_head = (HEAD \<noteq> 0 \<and> HEAD > 0)
        in
        if has_range \<and> has_head then Inl ConflictingSliceMode
        else if has_range then
          (case py_match False RANGE_RE RANGE of
             None \<Rightarrow> Inl InvalidRangeFormat
           | Some m \<Rightarrow>
              (case (group m ''1'', group m ''2'') of
                 (Some g1, Some g2) \<Rightarrow>
                   let start = int_of_digits g1; end = int_of_digits g2 in
                   if start < 1 \<or> end < start then Inl SliceOutOfRange
                   else if start > total \<or> end > total then Inl SliceOutOfRange
                   else Inr (slice records (nat (start - 1)) (nat end))
               | _ \<Rightarrow> Inl (PyException ''TypeError'')))
        else if has_head then
          (let n = HEAD in
           if n < 1 \<or> n > total then Inl SliceOutOfRange
           else Inr (take (nat n) records))
        else Inr records)"

definition example_record :: wrec where
  "example_record = \<lparr>pageid = 5, mid = ''M5'', title = None\<rparr>"

section \<open>The outside world\<close>

text \<open>
  The scripts talk to three collaborators: the spreadsheet (through pandas and openpyxl),
  the wiki (through mwclient) and the desktop (browser, clock). Every call to one of them
  is an event. The world answers a call as a function of the events so far, the call
  included, so that an answer may depend on what happened before. A function of the
  scripts that calls out takes the events so far and returns them extended.
\<close>

datatype cell = Num rat | Str string | NaN

type_synonym dataframe = "(string \<times> cell list) list"

type_synonym status_map = "(int \<times> string) list"

datatype sheet_sel = SheetIndex int | SheetName string

record rev_json =
  rv_content :: "string option"
  rv_timestamp :: "string option"

record page_json =
  pg_missing :: bool
  pg_revisions :: "rev_json list option"

record edit_json =
  ej_error :: bool
  ej_result :: "string option"
  ej_nochange :: bool

datatype exc = APIError string | OtherException string

datatype event =
    PathExists
  | ReadExcel
  | LoadWorkbook
  | WriteExcel string dataframe
  | ApiQuery int
  | GetToken
  | ApiEdit int string string string
  | Login
  | OpenBrowser int
  | Sleep

record world =
  w_path_exists :: "event list \<Rightarrow> bool"
  w_read_excel :: "event list \<Rightarrow> string + dataframe"
  w_sheetnames :: "event list \<Rightarrow> string + string list"
  w_write_excel :: "event list \<Rightarrow> string option"
  w_query :: "event list \<Rightarrow> exc + page_json list option option"
  w_token :: "event list \<Rightarrow> string + string"
  w_edit :: "event list \<Rightarrow> exc + edit_json"
  w_login :: "event list \<Rightarrow> string option"

text \<open>
  What pandas does with a text cell when it converts a column to numbers, how it prints a
  number when it converts a column to text, and what the conversion to a 64-bit integer
  makes of a whole number outside the range of that type (it depends on the type of the
  column and on the platform) are parameters.
\<close>

record pandas =
  pd_parse :: "string \<Rightarrow> rat option"
  pd_str :: "rat \<Rightarrow> string"
  pd_int64 :: "int \<Rightarrow> int"

record config =
  cfg_sheet :: sheet_sel
  cfg_pageid_col :: string
  cfg_title_col :: string
  cfg_status_col :: string
  cfg_max_files :: int
  cfg_head :: int
  cfg_range :: string
  cfg_checkpoint_every :: int
  cfg_open_after :: int
  cfg_open_after_max :: int
  cfg_sleep_sec :: rat





section \<open>Record loader\<close>

text \<open>\<open>pd.to_numeric(column, errors="coerce")\<close>, cell by cell; \<open>None\<close> is NaN.\<close>

definition to_numeric :: "pandas \<Rightarrow> cell \<Rightarrow> rat option" where
  "to_numeric pd c = (case c of Num x \<Rightarrow> Some x | NaN \<Rightarrow> None | Str s \<Rightarrow> pd_parse pd s)"

text \<open>\<open>astype(int)\<close> on a number: the fraction is cut off and the result is a 64-bit
  integer; a number outside the range of that type is not refused.\<close>

definition astype_int :: "pandas \<Rightarrow> rat \<Rightarrow> int" where
  "astype_int pd x =
     (let t = (if 0 \<le> x then \<lfloor>x\<rfloor> else \<lceil>x\<rceil>) in
      if - (2 ^ 63) \<le> t \<and> t < 2 ^ 63 then t else pd_int64 pd t)"

definition astype_str :: "pandas \<Rightarrow> cell \<Rightarrow> string" where
  "astype_str pd c = (case c of Str s \<Rightarrow> s | NaN \<Rightarrow> ''nan'' | Num x \<Rightarrow> pd_str pd x)"

fun dedup_records :: "int list \<Rightarrow> wrec list \<Rightarrow> wrec list" where
  "dedup_records seen [] = []"
| "dedup_records seen (rec # rest) =
     (if pageid rec \<in> set seen then dedup_records seen rest
      else rec # dedup_records (pageid rec # seen) rest)"

definition build_records :: "int list \<Rightarrow> string option list \<Rightarrow> wrec list" where
  "build_records pageids titles =
     map (\<lambda>(pid, t). \<lparr>pageid = pid, mid = ''M'' @ str_of_int pid,
                       title = (case t of Some (x # xs) \<Rightarrow> Some (x # xs) | _ \<Rightarrow> None)\<rparr>)
         (zip pageids titles)"

definition get_records ::
  "pandas \<Rightarrow> world \<Rightarrow> config \<Rightarrow> event list \<Rightarrow> (error + wrec list) \<times> event list" where
  "get_records pd w cfg h =
     (let h1 = h @ [PathExists] in
      if \<not> w_path_exists w h1 then (Inl ExcelFileNotFound, h1)
      else
        let h2 = h1 @ [ReadExcel] in
        (case w_read_excel w h2 of
           Inl _ \<Rightarrow> (Inl ExcelReadFailed, h2)
         | Inr df \<Rightarrow>
            (case map_of df (cfg_pageid_col cfg) of
               None \<Rightarrow> (Inl MissingColumn, h2)
             | Some raw_pid \<Rightarrow>
                 let num_pid = map (to_numeric pd) raw_pid in
                 if \<exists>v \<in> set num_pid. (case v of None \<Rightarrow> True | Some x \<Rightarrow> x \<le> 0)
                 then (Inl InvalidIdentifierValue, h2)
                 else
                   let pageids = map (\<lambda>v. case v of Some x \<Rightarrow> astype_int pd x | None \<Rightarrow> 0) num_pid;
                       titles = (case map_of df (cfg_title_col cfg) of
                                   Some col \<Rightarrow> map (\<lambda>c. Some (strip (astype_str pd c))) col
                                 | None \<Rightarrow> replicate (length pageids) None);
                       records = build_records pageids titles;
                       uniq = dedup_records [] records
                   in
                   if uniq = [] then (Inl NoValidRecords, h2)
                   else if int (length uniq) > cfg_max_files cfg then (Inl TooManyRecords, h2)
                   else (Inr uniq, h2))))"


section \<open>Page editor\<close>


text \<open>\<open>k in err\<close> for strings.\<close>

fun contains :: "string \<Rightarrow> string \<Rightarrow> bool" where
  "contains k [] = (k = [])"
| "contains k (x # t) = (take (length k) (x # t) = k \<or> contains k t)"

definition auth_markers :: "string list" where
  "auth_markers = [''assertuserfailed'', ''assertnameduserfailed'', ''notloggedin'', ''badtoken'']"

text \<open>The inner \<open>_get_token\<close>.\<close>

definition get_csrf_token :: "world \<Rightarrow> event list \<Rightarrow> (error + string) \<times> event list" where
  "get_csrf_token w h =
     (let h1 = h @ [GetToken] in
      case w_token w h1 of
        Inl _ \<Rightarrow> (Inl TokenUnavailable, h1)
      | Inr tok \<Rightarrow> if tok = [] then (Inl TokenUnavailable, h1) else (Inr tok, h1))"

text \<open>The inner \<open>_edit_with_token\<close>.\<close>

definition edit_with_token ::
  "world \<Rightarrow> int \<Rightarrow> string \<Rightarrow> string \<Rightarrow> string \<Rightarrow> event list \<Rightarrow> (exc + edit_json) \<times> event list" where
  "edit_with_token w pid new_text basetimestamp tok h =
     (let h1 = h @ [ApiEdit pid new_text tok basetimestamp] in (w_edit w h1, h1))"

definition validate_edit_response :: "edit_json \<Rightarrow> error + bool" where
  "validate_edit_response resp =
     (if ej_error resp then Inl EditRejected
      else if ej_result resp = Some ''Success'' \<or> ej_nochange resp then Inr True
      else Inl UnexpectedEditResponse)"

definition save_wikitext_by_pageid ::
  "world \<Rightarrow> int \<Rightarrow> string \<Rightarrow> string option \<Rightarrow> event list \<Rightarrow> (error + bool) \<times> event list" where
  "save_wikitext_by_pageid w pid new_text basetimestamp h =
     (if pid \<le> 0 then (Inl InvalidArgument, h)
      else if new_text = [] then (Inl InvalidArgument, h)
      else
        (case basetimestamp of
           None \<Rightarrow> (Inl InvalidArgument, h)
         | Some base \<Rightarrow>
            if base = [] then (Inl InvalidArgument, h)
            else
              (case get_csrf_token w h of
                 (Inl e, h1) \<Rightarrow> (Inl e, h1)
               | (Inr tok, h1) \<Rightarrow>
                  (case edit_with_token w pid new_text base tok h1 of
                     (Inl (APIError err), h2) \<Rightarrow>
                       if \<exists>k \<in> set auth_markers. contains k err then
                         (let h3 = h2 @ [Login] in
                          case w_login w h3 of
                            Some _ \<Rightarrow> (Inl AuthRetryFailed, h3)
                          | None \<Rightarrow>
                             (case get_csrf_token w h3 of
                                (Inl e, h4) \<Rightarrow> (Inl e, h4)
                              | (Inr tok2, h4) \<Rightarrow>
                                 (case edit_with_token w pid new_text base tok2 h4 of
                                    (Inl _, h5) \<Rightarrow> (Inl AuthRetryFailed, h5)
                                  | (Inr resp, h5) \<Rightarrow> (validate_edit_response resp, h5))))
                       else (Inl EditRejected, h2)
                   | (Inl (OtherException _), h2) \<Rightarrow> (Inl SaveTransportError, h2)
                   | (Inr resp, h2) \<Rightarrow> (validate_edit_response resp, h2)))))"

section \<open>Status writer\<close>

definition is_integral :: "rat \<Rightarrow> bool" where
  "is_integral x = (of_int \<lfloor>x\<rfloor> = x)"

text \<open>The loop over \<open>status_by_pageid.items()\<close> that fills the status column.\<close>

fun apply_statuses :: "int option list \<Rightarrow> cell list \<Rightarrow> status_map \<Rightarrow> cell list" where
  "apply_statuses pid_series col [] = col"
| "apply_statuses pid_series col ((pid, status) # rest) =
     apply_statuses pid_series
       (map (\<lambda>(v, c). if v = Some pid then Str status else c) (zip pid_series col)) rest"

definition set_column :: "dataframe \<Rightarrow> string \<Rightarrow> cell list \<Rightarrow> dataframe" where
  "set_column df name col = map (\<lambda>(n, c). if n = name then (n, col) else (n, c)) df"

definition write_status_to_excel ::
  "pandas \<Rightarrow> world \<Rightarrow> config \<Rightarrow> status_map \<Rightarrow> event list \<Rightarrow> (error + unit) \<times> event list" where
  "write_status_to_excel pd w cfg status_by_pageid h =
     (if status_by_pageid = [] then (Inr (), h)
      else
        let h1 = h @ [PathExists] in
        if \<not> w_path_exists w h1 then (Inl ExcelFileNotFound, h1)
        else
          let h2 = h1 @ [ReadExcel] in
          (case w_read_excel w h2 of
             Inl _ \<Rightarrow> (Inl ExcelReadFailed, h2)
           | Inr df0 \<Rightarrow>
              (case map_of df0 (cfg_pageid_col cfg) of
                 None \<Rightarrow> (Inl MissingColumn, h2)
               | Some pidcol \<Rightarrow>
                  let df = (if cfg_status_col cfg \<in> fst ` set df0 then df0
                            else df0 @ [(cfg_status_col cfg, replicate (length pidcol) (Str []))]);
                      nums = map (to_numeric pd) pidcol
                  in
                  if \<exists>v \<in> set nums. (case v of None \<Rightarrow> False | Some x \<Rightarrow> \<not> is_integral x)
                  then (Inl (PyException ''TypeError''), h2)
                  else
                    let pid_series = map (map_option floor) nums;
                        statcol = (case map_of df (cfg_status_col cfg) of Some c \<Rightarrow> c | None \<Rightarrow> []);
                        df' = set_column df (cfg_status_col cfg)
                                (apply_statuses pid_series statcol status_by_pageid);
                        h3 = h2 @ [LoadWorkbook]
                    in
                    (case w_sheetnames w h3 of
                       Inl _ \<Rightarrow> (Inl WorkbookUnreadable, h3)
                     | Inr sheetnames \<Rightarrow>
                        (case (case cfg_sheet cfg of
                                 SheetIndex i \<Rightarrow>
                                   if i < 0 \<or> i \<ge> int (length sheetnames) then Inl SheetIndexOutOfRange
                                   else Inr (sheetnames ! nat i)
                               | SheetName s \<Rightarrow>
                                   if strip s \<noteq> [] then Inr s
                                   else (case sheetnames of
                                           [] \<Rightarrow> Inl (PyException ''IndexError'')
                                         | n # _ \<Rightarrow> Inr n)) of
                           Inl e \<Rightarrow> (Inl e, h3)
                         | Inr target_sheet \<Rightarrow>
                             let h4 = h3 @ [WriteExcel target_sheet df'] in
                             (case w_write_excel w h4 of
                                Some _ \<Rightarrow> (Inl ExcelWriteFailed, h4)
                              | None \<Rightarrow> (Inr (), h4)))))))"


section \<open>Batch runner\<close>











section \<open>Checkpointing in the words of the specification\<close>





section \<open>A world in which the wiki and the spreadsheet do not fail\<close>

text \<open>
  The wiki serves the pages of \<open>pages\<close> (a page that is not there is reported missing),
  hands out a token, accepts every edit and every login; the spreadsheet is there, reads
  as \<open>df\<close> with the sheets \<open>sheets\<close>, and accepts every write.
\<close>

definition steady_world :: "(int \<Rightarrow> string option) \<Rightarrow> dataframe \<Rightarrow> string list \<Rightarrow> world" where
  "steady_world pages df sheets =
     \<lparr>w_path_exists = (\<lambda>h. True),
      w_read_excel = (\<lambda>h. Inr df),
      w_sheetnames = (\<lambda>h. Inr sheets),
      w_write_excel = (\<lambda>h. None),
      w_query = (\<lambda>h. case rev h of
                        ApiQuery pid # _ \<Rightarrow>
                          (case pages pid of
                             None \<Rightarrow> Inr (Some (Some [\<lparr>pg_missing = True, pg_revisions = None\<rparr>]))
                           | Some t \<Rightarrow>
                               Inr (Some (Some [\<lparr>pg_missing = False,
                                  pg_revisions = Some [\<lparr>rv_content = Some t,
                                     rv_timestamp = Some ''2025-09-18T00:00:00Z''\<rparr>]\<rparr>])))
                      | _ \<Rightarrow> Inl (OtherException [])),
      w_token = (\<lambda>h. Inr ''csrf-token''),
      w_edit = (\<lambda>h. Inr \<lparr>ej_error = False, ej_result = Some ''Success'', ej_nochange = False\<rparr>),
      w_login = (\<lambda>h. None)\<rparr>"



section \<open>Example configuration and worlds\<close>

text \<open>The configuration of a run with no slice; the other values are the defaults.\<close>

definition default_config :: config where
  "default_config =
     \<lparr>cfg_sheet = SheetIndex 0, cfg_pageid_col = ''PageID'', cfg_title_col = ''Title'',
      cfg_status_col = ''ProcessingStatus'', cfg_max_files = 60000, cfg_head = 0,
      cfg_range = [], cfg_checkpoint_every = 50, cfg_open_after = 0,
      cfg_open_after_max = 20, cfg_sleep_sec = 4\<rparr>"

definition plain_pandas :: pandas where
  "plain_pandas = \<lparr>pd_parse = (\<lambda>s. None), pd_str = (\<lambda>x. []),
                    pd_int64 = (\<lambda>t. (t + 2 ^ 63) mod 2 ^ 64 - 2 ^ 63)\<rparr>"

definition fraction_sheet :: dataframe where
  "fraction_sheet = [(''PageID'', [Num (25 / 2)])]"

definition duplicate_sheet :: dataframe where
  "duplicate_sheet = [(''PageID'', [Num 5, Num 5, Num 7])]"

definition is_edit :: "event \<Rightarrow> bool" where
  "is_edit e = (case e of ApiEdit _ _ _ _ \<Rightarrow> True | _ \<Rightarrow> False)"

text \<open>A wiki whose first edit call is refused for a stale token and whose second is accepted.\<close>

definition stale_token_world :: world where
  "stale_token_world =
     (steady_world (\<lambda>pid. None) [] [])
       \<lparr>w_edit := (\<lambda>h. if length (filter is_edit h) \<ge> 2
                        then Inr \<lparr>ej_error = False, ej_result = Some ''Success'', ej_nochange = False\<rparr>
                        else Inl (APIError ''badtoken: Invalid CSRF token''))\<rparr>"






section \<open>Matches with their groups\<close>

text \<open>
  \<open>binds ic r w g\<close>: the pattern can consume the word \<open>w\<close> and records the groups \<open>g\<close>
  (latest first) on the way. \<open>matches_at ic r s\<close>: some prefix of \<open>s\<close> is a word of the
  pattern, so an attempt at the start of \<open>s\<close> succeeds.
\<close>

fun binds :: "bool \<Rightarrow> rx \<Rightarrow> string \<Rightarrow> groups \<Rightarrow> bool" where
  "binds ic (Seq a b) w g =
     (\<exists>u v ga gb. w = u @ v \<and> g = gb @ ga \<and> binds ic a u ga \<and> binds ic b v gb)"
| "binds ic (Opt r) w g = ((w = [] \<and> g = []) \<or> binds ic r w g)"
| "binds ic (Group n r) w g = (\<exists>g'. g = (n, w) # g' \<and> binds ic r w g')"
| "binds ic r w g = (g = [] \<and> accepts ic r w)"

definition matches_at :: "bool \<Rightarrow> rx \<Rightarrow> string \<Rightarrow> bool" where
  "matches_at ic r s = (\<exists>w t. s = w @ t \<and> accepts ic r w)"


section \<open>Example page\<close>

text \<open>The block that replaces the old one of \<open>old_block_example\<close>, and a page around it.\<close>

definition new_block_example :: string where
  "new_block_example = join [NL]
     [''Internet Archive'',
      ''* Website: {{Internet Archive link|ddd_010124175_mpeg21}}'',
      ''* Direct download: https://archive.org/download/ddd_010124175_mpeg21/ddd_010124175_mpeg21.pdf'',
      ''Delpher'',
      ''* Website: https://resolver.kb.nl/resolve?urn=ddd:010124175'',
      ''* Direct download: https://resolver.kb.nl/resolve?urn=ddd:010124175:mpeg21:pdf'']"

definition page_example :: string where
  "page_example = ''{{Information'' @ [NL] @ old_block_example @ ''|author = KB'' @ [NL] @ ''}}''"

section \<open>The replacement block in the words of the specification\<close>

text \<open>
  The specification describes the block that replaces the old one as six fixed lines: a
  heading for the archive, a website line with the link template of the identifier, the
  direct link of the PDF, a heading for the resolver, and the two resolver links made by
  putting the URN into the resolver template, the second with \<open>:mpeg21:pdf\<close> after it.
  \<open>replacement_block\<close> is written from that description and the scenario of the
  specification, not from the code.
\<close>

definition replacement_block :: "string \<Rightarrow> string \<Rightarrow> string \<Rightarrow> string" where
  "replacement_block archive_id pdf_url urn =
     ''Internet Archive'' @ [NL]
     @ ''* Website: {{Internet Archive link|'' @ archive_id @ ''}}'' @ [NL]
     @ ''* Direct download: '' @ pdf_url @ [NL]
     @ ''Delpher'' @ [NL]
     @ ''* Website: https://resolver.kb.nl/resolve?urn='' @ urn @ [NL]
     @ ''* Direct download: https://resolver.kb.nl/resolve?urn='' @ urn @ '':mpeg21:pdf''"

section \<open>Characters a pattern can consume\<close>

text \<open>
  \<open>may ic r x\<close>: some position of the pattern \<open>r\<close> takes the character \<open>x\<close>, so a word of
  \<open>r\<close> holds no other characters. \<open>ends_lit r c\<close>: the pattern ends with the literal \<open>c\<close>.
\<close>

fun may :: "bool \<Rightarrow> rx \<Rightarrow> char \<Rightarrow> bool" where
  "may ic (Lit c) x = ch_eq ic c x"
| "may ic (Cls f) x = f x"
| "may ic Bol x = False"
| "may ic Eol x = False"
| "may ic (Seq a b) x = (may ic a x \<or> may ic b x)"
| "may ic (Star f) x = f x"
| "may ic (Plus f) x = f x"
| "may ic (PlusLazy f) x = f x"
| "may ic (Opt r) x = may ic r x"
| "may ic (Group n r) x = may ic r x"

fun ends_lit :: "rx \<Rightarrow> char \<Rightarrow> bool" where
  "ends_lit (Lit c) d = (c = d)"
| "ends_lit (Seq a b) d = ends_lit b d"
| "ends_lit _ d = False"

section \<open>More example pages and a worklist of three\<close>

text \<open>A page whose only old block names an identifier without a number, one whose only
  old block links the PDF in capitals, the page that \<open>page_example\<close> is to become, and
  three records.\<close>

definition nodigits_page :: string where
  "nodigits_page = ''{{Information'' @ [NL] @ ''|source ='' @ [NL]
     @ '':{{Internet Archive link|nodigits}}'' @ [NL]
     @ '':https://archive.org/download/nodigits/nodigits.pdf'' @ [NL] @ ''}}''"

definition upper_url_page :: string where
  "upper_url_page = ''{{Information'' @ [NL] @ ''|source ='' @ [NL]
     @ '':{{Internet Archive link|ddd_010124175_mpeg21}}'' @ [NL]
     @ '':HTTPS://ARCHIVE.ORG/DOWNLOAD/ddd_010124175_mpeg21/ddd_010124175_mpeg21.PDF'' @ [NL] @ ''}}''"

definition new_page_example :: string where
  "new_page_example = ''{{Information'' @ [NL] @ ''|source ='' @ [NL] @ new_block_example @ [NL]
     @ ''|author = KB'' @ [NL] @ ''}}''"

definition three_records :: "wrec list" where
  "three_records = [\<lparr>pageid = 5, mid = ''M5'', title = None\<rparr>,
                    \<lparr>pageid = 6, mid = ''M6'', title = None\<rparr>,
                    \<lparr>pageid = 7, mid = ''M7'', title = None\<rparr>]"




section \<open>The matcher and the accepted words\<close>

lemma star_greedy_sound:
  "(p', s', g') \<in> set (star_greedy f p s g) \<Longrightarrow>
     \<exists>w. s = w @ s' \<and> p' = p + length w \<and> g' = g \<and> (\<forall>x\<in>set w. f x)"
proof (induction s arbitrary: p)
  case Nil then show ?case by simp
next
  case (Cons x t)
  show ?case
  proof (cases "(p', s', g') = (p, x # t, g)")
    case True then show ?thesis by simp
  next
    case False
    with Cons.prems have fx: "f x" and m: "(p', s', g') \<in> set (star_greedy f (Suc p) t g)"
      by (auto split: if_splits)
    from Cons.IH [OF m] obtain w where "t = w @ s'" "p' = Suc p + length w" "g' = g" "\<forall>x\<in>set w. f x"
      by blast
    with fx have "x # t = (x # w) @ s' \<and> p' = p + length (x # w) \<and> g' = g \<and> (\<forall>y\<in>set (x # w). f y)"
      by simp
    then show ?thesis by blast
  qed
qed

lemma star_greedy_complete:
  "\<forall>x\<in>set w. f x \<Longrightarrow> (p + length w, t, g) \<in> set (star_greedy f p (w @ t) g)"
proof (induction w arbitrary: p)
  case Nil show ?case by (cases t) simp_all
next
  case (Cons x w)
  from Cons.prems have "\<forall>x\<in>set w. f x" by simp
  from Cons.IH [OF this, of "Suc p"] Cons.prems show ?case by simp
qed

lemma star_lazy_sound:
  "(p', s', g') \<in> set (star_lazy f p s g) \<Longrightarrow>
     \<exists>w. s = w @ s' \<and> p' = p + length w \<and> g' = g \<and> (\<forall>x\<in>set w. f x)"
proof (induction s arbitrary: p)
  case Nil then show ?case by simp
next
  case (Cons x t)
  show ?case
  proof (cases "(p', s', g') = (p, x # t, g)")
    case True then show ?thesis by simp
  next
    case False
    with Cons.prems have fx: "f x" and m: "(p', s', g') \<in> set (star_lazy f (Suc p) t g)"
      by (auto split: if_splits)
    from Cons.IH [OF m] obtain w where "t = w @ s'" "p' = Suc p + length w" "g' = g" "\<forall>x\<in>set w. f x"
      by blast
    with fx have "x # t = (x # w) @ s' \<and> p' = p + length (x # w) \<and> g' = g \<and> (\<forall>y\<in>set (x # w). f y)"
      by simp
    then show ?thesis by blast
  qed
qed

lemma star_lazy_complete:
  "\<forall>x\<in>set w. f x \<Longrightarrow> (p + length w, t, g) \<in> set (star_lazy f p (w @ t) g)"
proof (induction w arbitrary: p)
  case Nil show ?case by (cases t) simp_all
next
  case (Cons x w)
  from Cons.prems have "\<forall>x\<in>set w. f x" by simp
  from Cons.IH [OF this, of "Suc p"] Cons.prems show ?case by simp
qed

lemma rx_match_sound:
  "(p', s', g') \<in> set (rx_match ic r (p, s, g)) \<Longrightarrow>
     \<exists>w g0. s = w @ s' \<and> p' = p + length w \<and> g' = g0 @ g \<and> fst ` set g0 \<subseteq> names r
            \<and> accepts ic r w"
proof (induction r arbitrary: p s g p' s' g')
  case (Lit c)
  then show ?case by (cases s) (auto split: if_splits)
next
  case (Cls f)
  then show ?case by (cases s) (auto split: if_splits)
next
  case Bol
  then show ?case by (auto split: if_splits)
next
  case Eol
  then show ?case by (auto split: if_splits)
next
  case (Seq a b)
  from Seq.prems obtain p1 s1 g1 where
    a: "(p1, s1, g1) \<in> set (rx_match ic a (p, s, g))" and
    b: "(p', s', g') \<in> set (rx_match ic b (p1, s1, g1))"
    by auto
  from Seq.IH(1) [OF a] obtain u ga where
    u: "s = u @ s1" "p1 = p + length u" "g1 = ga @ g" "fst ` set ga \<subseteq> names a" "accepts ic a u"
    by blast
  from Seq.IH(2) [OF b] obtain v gb where
    v: "s1 = v @ s'" "p' = p1 + length v" "g' = gb @ g1" "fst ` set gb \<subseteq> names b" "accepts ic b v"
    by blast
  have "s = (u @ v) @ s' \<and> p' = p + length (u @ v) \<and> g' = (gb @ ga) @ g
        \<and> fst ` set (gb @ ga) \<subseteq> names (Seq a b) \<and> accepts ic (Seq a b) (u @ v)"
    using u v by auto
  then show ?case by blast
next
  case (Star f)
  from star_greedy_sound [of p' s' g' f p s g] Star show ?case by force
next
  case (Plus f)
  then obtain x t where s: "s = x # t" and fx: "f x"
    and m: "(p', s', g') \<in> set (star_greedy f (Suc p) t g)"
    by (cases s) (auto split: if_splits)
  from star_greedy_sound [OF m] obtain w where
    "t = w @ s'" "p' = Suc p + length w" "g' = g" "\<forall>x\<in>set w. f x" by blast
  with s fx have "s = (x # w) @ s' \<and> p' = p + length (x # w) \<and> g' = [] @ g
        \<and> fst ` set [] \<subseteq> names (Plus f) \<and> accepts ic (Plus f) (x # w)"
    by simp
  then show ?case by blast
next
  case (PlusLazy f)
  then obtain x t where s: "s = x # t" and fx: "f x"
    and m: "(p', s', g') \<in> set (star_lazy f (Suc p) t g)"
    by (cases s) (auto split: if_splits)
  from star_lazy_sound [OF m] obtain w where
    "t = w @ s'" "p' = Suc p + length w" "g' = g" "\<forall>x\<in>set w. f x" by blast
  with s fx have "s = (x # w) @ s' \<and> p' = p + length (x # w) \<and> g' = [] @ g
        \<and> fst ` set [] \<subseteq> names (PlusLazy f) \<and> accepts ic (PlusLazy f) (x # w)"
    by simp
  then show ?case by blast
next
  case (Opt r)
  show ?case
  proof (cases "(p', s', g') \<in> set (rx_match ic r (p, s, g))")
    case True
    from Opt.IH [OF True] show ?thesis by auto
  next
    case False
    with Opt.prems have "(p', s', g') = (p, s, g)" by auto
    then have "s = [] @ s' \<and> p' = p + length ([]::string) \<and> g' = [] @ g
        \<and> fst ` set [] \<subseteq> names (Opt r) \<and> accepts ic (Opt r) []" by simp
    then show ?thesis by blast
  qed
next
  case (Group n r)
  from Group.prems obtain g1 where
    m: "(p', s', g1) \<in> set (rx_match ic r (p, s, g))" and g': "g' = (n, take (p' - p) s) # g1"
    by auto
  from Group.IH [OF m] obtain w g0 where
    w: "s = w @ s'" "p' = p + length w" "g1 = g0 @ g" "fst ` set g0 \<subseteq> names r" "accepts ic r w"
    by blast
  have "s = w @ s' \<and> p' = p + length w \<and> g' = ((n, take (p' - p) s) # g0) @ g
        \<and> fst ` set ((n, take (p' - p) s) # g0) \<subseteq> names (Group n r) \<and> accepts ic (Group n r) w"
    using w g' by auto
  then show ?case by blast
qed

lemma rx_match_complete:
  "anchor_free r \<Longrightarrow> accepts ic r w \<Longrightarrow>
     \<exists>g'. (p + length w, t, g') \<in> set (rx_match ic r (p, w @ t, g))"
proof (induction r arbitrary: p w t g)
  case (Seq a b)
  from Seq.prems obtain u v where w: "w = u @ v" and u: "accepts ic a u" and v: "accepts ic b v"
    by auto
  from Seq.IH(1) [of u p "v @ t" g] Seq.prems u obtain g1 where
    a: "(p + length u, v @ t, g1) \<in> set (rx_match ic a (p, u @ v @ t, g))" by auto
  from Seq.IH(2) [of v "p + length u" t g1] Seq.prems v obtain g2 where
    b: "(p + length u + length v, t, g2) \<in> set (rx_match ic b (p + length u, v @ t, g1))" by auto
  from a b have "(p + length w, t, g2) \<in> set (rx_match ic (Seq a b) (p, w @ t, g))"
    unfolding w by (auto simp: add.assoc intro!: bexI [of _ "(p + length u, v @ t, g1)"])
  then show ?case by blast
next
  case (Star f)
  then show ?case using star_greedy_complete [of w f p t g] by auto
next
  case (Plus f)
  then obtain x w' where w: "w = x # w'" by (cases w) auto
  with Plus show ?case using star_greedy_complete [of w' f "Suc p" t g] by auto
next
  case (PlusLazy f)
  then obtain x w' where w: "w = x # w'" by (cases w) auto
  with PlusLazy show ?case using star_lazy_complete [of w' f "Suc p" t g] by auto
next
  case (Opt r)
  then show ?case by (cases "w = []") auto
next
  case (Group n r)
  from Group.IH [of w p t g] Group.prems obtain g1 where
    "(p + length w, t, g1) \<in> set (rx_match ic r (p, w @ t, g))" by auto
  then show ?case by force
qed auto

subsection \<open>The identifier pattern\<close>

lemma star_greedy_det:
  assumes "dead_on f k" "\<forall>x\<in>set w. f x" "t = [] \<or> \<not> f (hd t)"
  shows "concat (map k (star_greedy f p (w @ t) g)) = k (p + length w, t, g)"
  using assms(2)
proof (induction w arbitrary: p)
  case Nil
  from assms(3) show ?case by (cases t) auto
next
  case (Cons x w)
  from Cons.prems have fx: "f x" and w: "\<forall>x\<in>set w. f x" by auto
  from assms(1) fx have "k (p, x # w @ t, g) = []" by (simp add: dead_on_def)
  with Cons.IH [OF w, of "Suc p"] fx show ?case by simp
qed

lemma group_plus_det:
  assumes d: "dead_on f (rx_match ic R)" and fx: "f x" and w: "\<forall>y\<in>set w. f y"
      and t: "t = [] \<or> \<not> f (hd t)"
  shows "rx_match ic (Seq (Group nm (Plus f)) R) (q, x # w @ t, g)
         = rx_match ic R (Suc q + length w, t, (nm, x # w) # g)"
proof -
  let ?G = "\<lambda>(p', s', g'). (p', s', (nm, take (p' - q) (x # w @ t)) # g')"
  let ?k = "\<lambda>st. rx_match ic R (?G st)"
  have dk: "dead_on f ?k" using d by (simp add: dead_on_def)
  have "rx_match ic (Seq (Group nm (Plus f)) R) (q, x # w @ t, g)
        = concat (map ?k (star_greedy f (Suc q) (w @ t) g))"
    using fx by (simp add: comp_def)
  also have "\<dots> = ?k (Suc q + length w, t, g)"
    by (rule star_greedy_det [OF dk w t])
  also have "\<dots> = rx_match ic R (Suc q + length w, t, (nm, x # w) # g)" by simp
  finally show ?thesis .
qed

lemma seq_memI:
  "st1 \<in> set (rx_match ic a st) \<Longrightarrow> st2 \<in> set (rx_match ic b st1)
   \<Longrightarrow> st2 \<in> set (rx_match ic (Seq a b) st)"
  by auto

lemma not_alnum_underscore: "\<not> is_alnum_ascii CHR ''_''"
  by (simp add: is_alnum_ascii_def is_digit_def code_def)

lemma not_digit_underscore: "\<not> is_digit CHR ''_''"
  by (simp add: is_digit_def code_def)

lemma digit_not_NL: "is_digit x \<Longrightarrow> x \<noteq> NL"
  by (auto simp: is_digit_def code_def)

lemma alnum_not_space: "is_alnum_ascii x \<Longrightarrow> \<not> is_space x"
  by (auto simp: is_alnum_ascii_def is_digit_def is_space_def)

lemma digit_alnum: "is_digit x \<Longrightarrow> is_alnum_ascii x"
  by (simp add: is_alnum_ascii_def)

lemma URN_unfold:
  "URN_FROM_IA_RE = Seq Bol (Seq (Group ''prefix'' (Plus is_alnum_ascii))
      (Seq (Lit CHR ''_'') (Seq (Group ''number'' (Plus is_digit)) urn_tail_rx)))"
  by (simp add: URN_FROM_IA_RE_def urn_tail_rx_def)

lemma dead_lit: "\<forall>x. f x \<longrightarrow> \<not> ch_eq ic c x \<Longrightarrow> dead_on f (rx_match ic (Seq (Lit c) b))"
  by (simp add: dead_on_def)

lemma dead_urn_tail: "dead_on is_digit (rx_match False urn_tail_rx)"
  by (auto simp: dead_on_def urn_tail_rx_def ch_eq_def not_digit_underscore dest: digit_not_NL)

lemma urn_match_exact:
  assumes p: "p \<noteq> []" "\<forall>x\<in>set p. is_alnum_ascii x"
      and n: "n \<noteq> []" "\<forall>x\<in>set n. is_digit x"
      and suf: "suf = [] \<or> \<not> is_digit (hd suf)"
  shows "rx_match False URN_FROM_IA_RE (0, p @ CHR ''_'' # n @ suf, [])
         = rx_match False urn_tail_rx (Suc (length p + length n), suf,
              [(''number'', n), (''prefix'', p)])"
proof -
  from p obtain x w where pw: "p = x # w" by (cases p) auto
  from n obtain y v where nv: "n = y # v" by (cases n) auto
  have d1: "dead_on is_alnum_ascii (rx_match False (Seq (Lit CHR ''_'')
              (Seq (Group ''number'' (Plus is_digit)) urn_tail_rx)))"
    by (rule dead_lit) (auto simp: ch_eq_def not_alnum_underscore)
  have t1: "CHR ''_'' # n @ suf = [] \<or> \<not> is_alnum_ascii (hd (CHR ''_'' # n @ suf))"
    by (simp add: not_alnum_underscore)
  have "rx_match False URN_FROM_IA_RE (0, p @ CHR ''_'' # n @ suf, [])
        = rx_match False (Seq (Group ''prefix'' (Plus is_alnum_ascii))
            (Seq (Lit CHR ''_'') (Seq (Group ''number'' (Plus is_digit)) urn_tail_rx)))
            (0, x # w @ (CHR ''_'' # n @ suf), [])"
    by (simp add: URN_unfold pw)
  also have "\<dots> = rx_match False (Seq (Lit CHR ''_'') (Seq (Group ''number'' (Plus is_digit)) urn_tail_rx))
                     (Suc 0 + length w, CHR ''_'' # n @ suf, [(''prefix'', x # w)])"
    using p pw by (intro group_plus_det [OF d1 _ _ t1]) auto
  also have "\<dots> = rx_match False (Seq (Group ''number'' (Plus is_digit)) urn_tail_rx)
                     (Suc (length p), y # v @ suf, [(''prefix'', p)])"
    by (simp add: ch_eq_def pw nv)
  also have "\<dots> = rx_match False urn_tail_rx (Suc (Suc (length p)) + length v, suf,
                       (''number'', y # v) # [(''prefix'', p)])"
    using n nv by (intro group_plus_det [OF dead_urn_tail _ _ suf]) auto
  finally show ?thesis by (simp add: nv)
qed

lemma urn_tail_results:
  assumes "suf = [] \<or> (\<exists>r. suf = CHR ''_'' # r \<and> NL \<notin> set r)"
  shows "rx_match False urn_tail_rx (q, suf, g) \<noteq> []"
    and "\<forall>st\<in>set (rx_match False urn_tail_rx (q, suf, g)). snd (snd st) = g"
proof -
  have acc: "accepts False (Opt (Seq (Lit CHR ''_'') (Star not_newline))) suf"
    using assms by (auto simp: ch_eq_def not_newline_def)
  from rx_match_complete [OF _ acc, of q "[]" g] obtain g' where
    m: "(q + length suf, [], g') \<in> set (rx_match False (Opt (Seq (Lit CHR ''_'') (Star not_newline))) (q, suf, g))"
    by auto
  have "(q + length suf, [], g') \<in> set (rx_match False urn_tail_rx (q, suf, g))"
    unfolding urn_tail_rx_def by (rule seq_memI [OF m]) simp
  then show "rx_match False urn_tail_rx (q, suf, g) \<noteq> []" by auto
  show "\<forall>st\<in>set (rx_match False urn_tail_rx (q, suf, g)). snd (snd st) = g"
  proof
    fix st assume a: "st \<in> set (rx_match False urn_tail_rx (q, suf, g))"
    obtain p' s' g' where st: "st = (p', s', g')" by (cases st) auto
    from rx_match_sound [OF a [unfolded st]] obtain g0 where "g' = g0 @ g" "fst ` set g0 \<subseteq> names urn_tail_rx"
      by blast
    then show "snd (snd st) = g" by (simp add: st urn_tail_rx_def)
  qed
qed

lemma py_match_urn:
  assumes p: "p \<noteq> []" "\<forall>x\<in>set p. is_alnum_ascii x"
      and n: "n \<noteq> []" "\<forall>x\<in>set n. is_digit x"
      and suf: "suf = [] \<or> (\<exists>r. suf = CHR ''_'' # r \<and> NL \<notin> set r)"
  shows "\<exists>m. py_match False URN_FROM_IA_RE (p @ CHR ''_'' # n @ suf) = Some m
             \<and> m_groups m = [(''number'', n), (''prefix'', p)]"
proof -
  let ?g = "[(''number'', n), (''prefix'', p)]"
  let ?L = "rx_match False urn_tail_rx (Suc (length p + length n), suf, ?g)"
  from suf have suf': "suf = [] \<or> \<not> is_digit (hd suf)" by (auto simp: not_digit_underscore)
  have eq: "rx_match False URN_FROM_IA_RE (0, p @ CHR ''_'' # n @ suf, []) = ?L"
    by (rule urn_match_exact [OF p n suf'])
  from urn_tail_results [OF suf, of "Suc (length p + length n)" ?g]
  have ne: "?L \<noteq> []" and gs: "\<forall>st\<in>set ?L. snd (snd st) = ?g" by auto
  from ne obtain st rest where L: "?L = st # rest" by (cases ?L) auto
  with gs have "snd (snd st) = ?g" by auto
  then show ?thesis unfolding py_match_def eq L by (cases st) auto
qed

lemma lstrip_nonspace: "\<not> is_space x \<Longrightarrow> lstrip (x # s) = x # s"
  by (simp add: lstrip_def)

lemma rstrip_nonspace: "\<not> is_space c \<Longrightarrow> rstrip (a @ c # b) = a @ c # rstrip b"
  by (simp add: rstrip_def dropWhile_append)

lemma set_rstrip: "set (rstrip s) \<subseteq> set s"
  using set_dropWhileD [of _ is_space "rev s"] by (auto simp: rstrip_def)

lemma strip_last_nonspace: "strip s \<noteq> [] \<Longrightarrow> \<not> is_space (last (strip s))"
proof -
  assume a: "strip s \<noteq> []"
  let ?d = "dropWhile is_space (rev (lstrip s))"
  from a have d: "?d \<noteq> []" by (simp add: strip_def rstrip_def)
  then have "\<not> is_space (hd ?d)" by (rule hd_dropWhile)
  moreover have "last (strip s) = hd ?d" using d by (simp add: strip_def rstrip_def last_rev)
  ultimately show ?thesis by simp
qed

lemma ends_eol_rest:
  "ends_eol r \<Longrightarrow> (p', s', g') \<in> set (rx_match ic r (p, s, g)) \<Longrightarrow> s' = [] \<or> s' = [NL]"
proof (induction r arbitrary: p s g)
  case Eol
  then show ?case by (auto split: if_splits)
next
  case (Seq a b)
  from Seq.prems(2) obtain p1 s1 g1 where "(p', s', g') \<in> set (rx_match ic b (p1, s1, g1))"
    by auto
  with Seq.IH(2) Seq.prems(1) show ?case by auto
qed simp_all

lemma accepts_SeqE:
  assumes "accepts ic (Seq a b) w"
  obtains u v where "w = u @ v" "accepts ic a u" "accepts ic b v"
  using assms by auto

lemma accepts_urn_shape:
  assumes "accepts False URN_FROM_IA_RE t"
  shows "urn_shape t"
proof -
  from assms [unfolded URN_unfold] obtain u0 v0 where a0: "t = u0 @ v0" "accepts False Bol u0"
    "accepts False (Seq (Group ''prefix'' (Plus is_alnum_ascii))
       (Seq (Lit CHR ''_'') (Seq (Group ''number'' (Plus is_digit)) urn_tail_rx))) v0"
    by (rule accepts_SeqE)
  from a0(3) obtain p r1 where a1: "v0 = p @ r1" "accepts False (Group ''prefix'' (Plus is_alnum_ascii)) p"
    "accepts False (Seq (Lit CHR ''_'') (Seq (Group ''number'' (Plus is_digit)) urn_tail_rx)) r1"
    by (rule accepts_SeqE)
  from a1(3) obtain c r2 where a2: "r1 = c @ r2" "accepts False (Lit CHR ''_'') c"
    "accepts False (Seq (Group ''number'' (Plus is_digit)) urn_tail_rx) r2"
    by (rule accepts_SeqE)
  from a2(3) obtain n suf where a3: "r2 = n @ suf" "accepts False (Group ''number'' (Plus is_digit)) n"
    "accepts False urn_tail_rx suf"
    by (rule accepts_SeqE)
  from a0(1,2) a1(1) have t1: "t = p @ r1" by simp
  from a1(2) have p: "p \<noteq> []" "\<forall>x\<in>set p. is_alnum_ascii x" by simp_all
  from a2(1,2) have r1': "r1 = CHR ''_'' # r2" by (auto simp: ch_eq_def)
  from a3(1) have r2': "r2 = n @ suf" .
  from a3(2) have n: "n \<noteq> []" "\<forall>x\<in>set n. is_digit x" by simp_all
  note s0 = a3(3)
  from s0 have suf: "suf = [] \<or> (\<exists>r. suf = CHR ''_'' # r \<and> NL \<notin> set r)"
    unfolding urn_tail_rx_def by (auto simp: ch_eq_def not_newline_def)
  have t: "t = p @ CHR ''_'' # n @ suf" by (simp add: t1 r1' r2')
  have tp: "takeWhile is_alnum_ascii t = p"
    unfolding t using p by (simp add: takeWhile_append2 not_alnum_underscore)
  have dp: "dropWhile is_alnum_ascii t = CHR ''_'' # n @ suf"
    unfolding t using p by (simp add: dropWhile_append2 not_alnum_underscore)
  have s1: "suf = [] \<or> \<not> is_digit (hd suf)" using suf by (auto simp: not_digit_underscore)
  have tn: "takeWhile is_digit (n @ suf) = n"
    using n s1 by (cases suf) (simp_all add: takeWhile_append2)
  have dn: "dropWhile is_digit (n @ suf) = suf"
    using n s1 by (cases suf) (simp_all add: dropWhile_append2)
  have "urn_shape t = (case suf of [] \<Rightarrow> True | d # q \<Rightarrow> d = CHR ''_'' \<and> NL \<notin> set q)"
    using p n by (simp add: urn_shape_def Let_def tp dp tn dn)
  then show ?thesis using suf by auto
qed

lemma strip_urn_shape:
  assumes p: "p \<noteq> []" "\<forall>x\<in>set p. is_alnum_ascii x"
      and n: "n \<noteq> []" "\<forall>x\<in>set n. is_digit x"
  shows "strip (p @ CHR ''_'' # n @ suf) = p @ CHR ''_'' # n @ rstrip suf"
proof -
  from p obtain x w where pw: "p = x # w" by (cases p) auto
  from n obtain n' y where ny: "n = n' @ [y]" by (cases n rule: rev_cases) auto
  have x: "\<not> is_space x" using p pw alnum_not_space [of x] by auto
  have y: "\<not> is_space y" using n ny alnum_not_space [of y] digit_alnum [of y] by auto
  have l: "lstrip (p @ CHR ''_'' # n @ suf) = p @ CHR ''_'' # n @ suf"
    unfolding pw using lstrip_nonspace [OF x] by simp
  have "rstrip ((p @ CHR ''_'' # n') @ y # suf) = (p @ CHR ''_'' # n') @ y # rstrip suf"
    by (rule rstrip_nonspace [OF y])
  then have r: "rstrip (p @ CHR ''_'' # n @ suf) = p @ CHR ''_'' # n @ rstrip suf"
    by (simp add: ny)
  show ?thesis unfolding strip_def l r ..
qed

lemma rstrip_suffix_shape:
  assumes "suf = [] \<or> (\<exists>r. suf = CHR ''_'' # r \<and> NL \<notin> set r)"
  shows "rstrip suf = [] \<or> (\<exists>r. rstrip suf = CHR ''_'' # r \<and> NL \<notin> set r)"
proof (cases "suf = []")
  case True then show ?thesis by (simp add: rstrip_def)
next
  case False
  with assms obtain r where r: "suf = CHR ''_'' # r" "NL \<notin> set r" by auto
  have "\<not> is_space CHR ''_''" by (simp add: is_space_def code_def)
  from rstrip_nonspace [OF this, of "[]" r] have "rstrip suf = CHR ''_'' # rstrip r"
    by (simp add: r)
  moreover have "NL \<notin> set (rstrip r)" using r(2) set_rstrip [of r] by auto
  ultimately show ?thesis by simp
qed

lemma derive_urn_ok:
  assumes p: "p \<noteq> []" "\<forall>x\<in>set p. is_alnum_ascii x"
      and n: "n \<noteq> []" "\<forall>x\<in>set n. is_digit x"
      and suf: "suf = [] \<or> (\<exists>r. suf = CHR ''_'' # r \<and> NL \<notin> set r)"
  shows "derive_delpher_urn (p @ CHR ''_'' # n @ suf) = Inr (p @ CHR '':'' # n)"
proof -
  have st: "strip (p @ CHR ''_'' # n @ suf) = p @ CHR ''_'' # n @ rstrip suf"
    by (rule strip_urn_shape [OF p n])
  from py_match_urn [OF p n rstrip_suffix_shape [OF suf]] obtain m where
    m: "py_match False URN_FROM_IA_RE (p @ CHR ''_'' # n @ rstrip suf) = Some m"
       "m_groups m = [(''number'', n), (''prefix'', p)]" by blast
  have g: "group m ''prefix'' = Some p" "group m ''number'' = Some n"
    by (simp_all add: group_def m(2))
  have ne: "p @ CHR ''_'' # n @ rstrip suf \<noteq> []" by simp
  show ?thesis
    unfolding derive_delpher_urn_def st using ne by (simp add: m(1) g fmt_def)
qed

lemma derive_urn_fail:
  assumes "\<not> urn_shape (strip s)"
  shows "derive_delpher_urn s = Inl MalformedIdentifier"
proof (cases "strip s = []")
  case True then show ?thesis by (simp add: derive_delpher_urn_def)
next
  case False
  have "rx_match False URN_FROM_IA_RE (0, strip s, []) = []"
  proof (rule ccontr)
    assume "rx_match False URN_FROM_IA_RE (0, strip s, []) \<noteq> []"
    then obtain p' s' g' where m: "(p', s', g') \<in> set (rx_match False URN_FROM_IA_RE (0, strip s, []))"
      by (cases "rx_match False URN_FROM_IA_RE (0, strip s, [])") auto
    have "ends_eol URN_FROM_IA_RE" by (simp add: URN_unfold urn_tail_rx_def)
    from ends_eol_rest [OF this m] have s': "s' = [] \<or> s' = [NL]" .
    from rx_match_sound [OF m] obtain w where w: "strip s = w @ s'" "accepts False URN_FROM_IA_RE w"
      by blast
    have "s' = []"
    proof (rule ccontr)
      assume "s' \<noteq> []"
      with s' have "s' = [NL]" by simp
      with w have "last (strip s) = NL" by simp
      moreover have "is_space NL" by (simp add: is_space_def code_def)
      ultimately show False using strip_last_nonspace [OF False] by simp
    qed
    with w have "accepts False URN_FROM_IA_RE (strip s)" by simp
    from accepts_urn_shape [OF this] assms show False by simp
  qed
  then show ?thesis using False by (simp add: derive_delpher_urn_def py_match_def)
qed

subsection \<open>The batch runner in a world that does not fail\<close>












subsection \<open>Matches found by the scan\<close>

lemma binds_accepts: "binds ic r w g \<Longrightarrow> accepts ic r w"
proof (induction r arbitrary: w g)
  case (Seq a b)
  from Seq.prems obtain u v ga gb where
    uv: "w = u @ v" "binds ic a u ga" "binds ic b v gb" by auto
  from Seq.IH(1) [OF uv(2)] Seq.IH(2) [OF uv(3)] have "accepts ic a u" "accepts ic b v" .
  with uv(1) show ?case by (simp only: accepts.simps) blast
qed auto

lemma binds_names: "binds ic r w g \<Longrightarrow> fst ` set g \<subseteq> names r"
proof (induction r arbitrary: w g)
  case (Seq a b)
  from Seq.prems obtain u v ga gb where
    "g = gb @ ga" "binds ic a u ga" "binds ic b v gb" by auto
  with Seq.IH [of u ga] Seq.IH(2) [of v gb] show ?case by auto
next
  case (Opt r)
  then show ?case by auto
next
  case (Group n r)
  from Group.prems obtain g' where "g = (n, w) # g'" "binds ic r w g'" by auto
  with Group.IH [of w g'] show ?case by auto
qed auto

lemma rx_match_binds:
  "(p', s', g') \<in> set (rx_match ic r (p, s, g)) \<Longrightarrow>
     \<exists>w g0. s = w @ s' \<and> p' = p + length w \<and> g' = g0 @ g \<and> binds ic r w g0"
proof (induction r arbitrary: p s g p' s' g')
  case (Lit c)
  then show ?case by (cases s) (auto split: if_splits)
next
  case (Cls f)
  then show ?case by (cases s) (auto split: if_splits)
next
  case Bol
  then show ?case by (auto split: if_splits)
next
  case Eol
  then show ?case by (auto split: if_splits)
next
  case (Seq a b)
  from Seq.prems obtain p1 s1 g1 where
    a: "(p1, s1, g1) \<in> set (rx_match ic a (p, s, g))" and
    b: "(p', s', g') \<in> set (rx_match ic b (p1, s1, g1))"
    by auto
  from Seq.IH(1) [OF a] obtain u ga where
    u: "s = u @ s1" "p1 = p + length u" "g1 = ga @ g" "binds ic a u ga"
    by blast
  from Seq.IH(2) [OF b] obtain v gb where
    v: "s1 = v @ s'" "p' = p1 + length v" "g' = gb @ g1" "binds ic b v gb"
    by blast
  have "s = (u @ v) @ s' \<and> p' = p + length (u @ v) \<and> g' = (gb @ ga) @ g
        \<and> binds ic (Seq a b) (u @ v) (gb @ ga)"
    using u v by auto
  then show ?case by blast
next
  case (Star f)
  from rx_match_sound [OF Star] obtain w g0 where
    "s = w @ s'" "p' = p + length w" "g' = g0 @ g" "fst ` set g0 \<subseteq> names (Star f)"
    "accepts ic (Star f) w" by blast
  then have "s = w @ s' \<and> p' = p + length w \<and> g' = [] @ g \<and> binds ic (Star f) w []"
    by simp
  then show ?case by blast
next
  case (Plus f)
  from rx_match_sound [OF Plus] obtain w g0 where
    "s = w @ s'" "p' = p + length w" "g' = g0 @ g" "fst ` set g0 \<subseteq> names (Plus f)"
    "accepts ic (Plus f) w" by blast
  then have "s = w @ s' \<and> p' = p + length w \<and> g' = [] @ g \<and> binds ic (Plus f) w []"
    by simp
  then show ?case by blast
next
  case (PlusLazy f)
  from rx_match_sound [OF PlusLazy] obtain w g0 where
    "s = w @ s'" "p' = p + length w" "g' = g0 @ g" "fst ` set g0 \<subseteq> names (PlusLazy f)"
    "accepts ic (PlusLazy f) w" by blast
  then have "s = w @ s' \<and> p' = p + length w \<and> g' = [] @ g \<and> binds ic (PlusLazy f) w []"
    by simp
  then show ?case by blast
next
  case (Opt r)
  show ?case
  proof (cases "(p', s', g') \<in> set (rx_match ic r (p, s, g))")
    case True
    from Opt.IH [OF True] show ?thesis by auto
  next
    case False
    with Opt.prems have "(p', s', g') = (p, s, g)" by auto
    then have "s = [] @ s' \<and> p' = p + length ([]::string) \<and> g' = [] @ g
        \<and> binds ic (Opt r) [] []" by simp
    then show ?thesis by blast
  qed
next
  case (Group n r)
  from Group.prems obtain g1 where
    m: "(p', s', g1) \<in> set (rx_match ic r (p, s, g))" and g': "g' = (n, take (p' - p) s) # g1"
    by auto
  from Group.IH [OF m] obtain w g0 where
    w: "s = w @ s'" "p' = p + length w" "g1 = g0 @ g" "binds ic r w g0"
    by blast
  have "s = w @ s' \<and> p' = p + length w \<and> g' = ((n, w) # g0) @ g
        \<and> binds ic (Group n r) w ((n, w) # g0)"
    using w g' by auto
  then show ?case by blast
qed

lemma match_iff:
  assumes "anchor_free r"
  shows "(rx_match ic r (p, s, g) \<noteq> []) = matches_at ic r s"
proof
  assume "rx_match ic r (p, s, g) \<noteq> []"
  then obtain p' s' g' where "(p', s', g') \<in> set (rx_match ic r (p, s, g))"
    by (cases "rx_match ic r (p, s, g)") auto
  from rx_match_sound [OF this] show "matches_at ic r s"
    by (auto simp: matches_at_def)
next
  assume "matches_at ic r s"
  then obtain w t where "s = w @ t" "accepts ic r w" by (auto simp: matches_at_def)
  with rx_match_complete [OF assms, of ic w p t g] show "rx_match ic r (p, s, g) \<noteq> []"
    by auto
qed

lemma first_match_plain:
  "first_match ic r False p s =
     (case rx_match ic r (p, s, []) of [] \<Rightarrow> None | st # _ \<Rightarrow> Some st)"
  by (simp add: first_match_def)

lemma first_match_none:
  "rx_match ic r (p, s, []) = [] \<Longrightarrow> first_match ic r adv p s = None"
  by (simp add: first_match_def)

lemma finditer_none:
  assumes "anchor_free r"
  shows "(\<forall>a t. s = a @ t \<longrightarrow> \<not> matches_at ic r t) \<Longrightarrow> finditer_from ic r adv p s = []"
proof (induction s arbitrary: p adv)
  case Nil
  then have "\<not> matches_at ic r []" by simp
  with match_iff [OF assms, of ic p "[]" "[]"] have "rx_match ic r (p, [], []) = []" by simp
  then show ?case by (subst finditer_from.simps) (simp add: first_match_none)
next
  case (Cons x s)
  from Cons.prems have "\<not> matches_at ic r (x # s)" by simp
  with match_iff [OF assms, of ic p "x # s" "[]"] have m: "rx_match ic r (p, x # s, []) = []" by simp
  have "\<forall>a t. s = a @ t \<longrightarrow> \<not> matches_at ic r t"
  proof (intro allI impI)
    fix a t assume "s = a @ t"
    then have "x # s = (x # a) @ t" by simp
    with Cons.prems show "\<not> matches_at ic r t" by blast
  qed
  from Cons.IH [OF this] have "finditer_from ic r False (Suc p) s = []" .
  then show ?case by (subst finditer_from.simps) (simp add: first_match_none [OF m])
qed

lemma finditer_none_conv:
  assumes "anchor_free r"
  shows "finditer_from ic r False p s = [] \<Longrightarrow> s = a @ t \<Longrightarrow> \<not> matches_at ic r t"
proof (induction s arbitrary: p a)
  case Nil
  then have t: "t = []" by simp
  have "rx_match ic r (p, [], []) = []"
  proof (rule ccontr)
    assume "rx_match ic r (p, [], []) \<noteq> []"
    then obtain st rest where "rx_match ic r (p, [], []) = st # rest"
      by (cases "rx_match ic r (p, [], [])") auto
    with Nil.prems(1) show False
      by (subst (asm) finditer_from.simps) (simp add: first_match_plain split: prod.splits)
  qed
  with match_iff [OF assms, of ic p "[]" "[]"] show ?case by (simp add: t)
next
  case (Cons x s)
  have m: "rx_match ic r (p, x # s, []) = []"
  proof (rule ccontr)
    assume "rx_match ic r (p, x # s, []) \<noteq> []"
    then obtain st rest where "rx_match ic r (p, x # s, []) = st # rest"
      by (cases "rx_match ic r (p, x # s, [])") auto
    with Cons.prems(1) show False
      by (subst (asm) finditer_from.simps) (simp add: first_match_plain split: prod.splits)
  qed
  show ?case
  proof (cases a)
    case Nil
    with Cons.prems(2) have "t = x # s" by simp
    with m match_iff [OF assms, of ic p "x # s" "[]"] show ?thesis by simp
  next
    case (Cons y a')
    with Cons.prems(2) have s: "s = a' @ t" by simp
    from Cons.prems(1) have "finditer_from ic r False (Suc p) s = []"
      by (subst (asm) finditer_from.simps) (simp add: first_match_none [OF m])
    from Cons.IH [OF this s] show ?thesis .
  qed
qed

lemma finditer_one:
  assumes af: "anchor_free r" and ne: "\<forall>w. accepts ic r w \<longrightarrow> w \<noteq> []"
  shows "finditer_from ic r False p s = [m] \<Longrightarrow>
     \<exists>pre w post g. s = pre @ w @ post
        \<and> m = \<lparr>m_start = p + length pre, m_end = p + length pre + length w, m_groups = g\<rparr>
        \<and> binds ic r w g
        \<and> (\<forall>a c. pre = a @ c \<and> c \<noteq> [] \<longrightarrow> \<not> matches_at ic r (c @ w @ post))
        \<and> (\<forall>a t. post = a @ t \<longrightarrow> \<not> matches_at ic r t)"
proof (induction s arbitrary: p)
  case Nil
  have "rx_match ic r (p, [], []) = []"
  proof (rule ccontr)
    assume "rx_match ic r (p, [], []) \<noteq> []"
    with match_iff [OF af, of ic p "[]" "[]"] have "matches_at ic r []" by simp
    then have "accepts ic r []" by (auto simp: matches_at_def)
    with ne show False by blast
  qed
  with Nil show ?case by (subst (asm) finditer_from.simps) (simp add: first_match_none)
next
  case (Cons x s)
  show ?case
  proof (cases "rx_match ic r (p, x # s, [])")
    case Nil
    from Cons.prems have f: "finditer_from ic r False (Suc p) s = [m]"
      by (subst (asm) finditer_from.simps) (simp add: first_match_none [OF Nil])
    from Cons.IH [OF f] obtain pre w post g where
      d: "s = pre @ w @ post"
         "m = \<lparr>m_start = Suc p + length pre, m_end = Suc p + length pre + length w, m_groups = g\<rparr>"
         "binds ic r w g"
         "\<forall>a c. pre = a @ c \<and> c \<noteq> [] \<longrightarrow> \<not> matches_at ic r (c @ w @ post)"
         "\<forall>a t. post = a @ t \<longrightarrow> \<not> matches_at ic r t"
      by blast
    have nm: "\<not> matches_at ic r (x # s)"
      using Nil match_iff [OF af, of ic p "x # s" "[]"] by simp
    have nopre: "\<forall>a c. x # pre = a @ c \<and> c \<noteq> [] \<longrightarrow> \<not> matches_at ic r (c @ w @ post)"
    proof (intro allI impI)
      fix a c assume ac: "x # pre = a @ c \<and> c \<noteq> []"
      show "\<not> matches_at ic r (c @ w @ post)"
      proof (cases a)
        case Nil
        with ac have "c @ w @ post = x # s" by (simp add: d(1))
        with nm show ?thesis by simp
      next
        case (Cons y a')
        with ac have "pre = a' @ c \<and> c \<noteq> []" by simp
        with d(4) show ?thesis by blast
      qed
    qed
    have e1: "x # s = (x # pre) @ w @ post" by (simp only: d(1) append_Cons)
    have e2: "m = \<lparr>m_start = p + length (x # pre), m_end = p + length (x # pre) + length w,
                 m_groups = g\<rparr>"
      by (simp only: d(2) length_Cons add_Suc add_Suc_right)
    from e1 e2 d(3) nopre d(5) show ?thesis by blast
  next
    case (Cons st rest)
    obtain p' s' g where st: "st = (p', s', g)" by (cases st) auto
    have "(p', s', g) \<in> set (rx_match ic r (p, x # s, []))" by (simp add: Cons st)
    from rx_match_binds [OF this] obtain w where
      w: "x # s = w @ s'" "p' = p + length w" "binds ic r w g" by auto
    from w(3) ne have wne: "w \<noteq> []" using binds_accepts by blast
    have "length (x # s) = length w + length s'" by (simp only: w(1) length_append)
    with wne have len: "length s' < length (x # s)" by simp
    have fm: "first_match ic r False p (x # s) = Some (p', s', g)"
      by (simp add: first_match_plain Cons st)
    have "finditer_from ic r False p (x # s)
            = \<lparr>m_start = p, m_end = p', m_groups = g\<rparr> # finditer_from ic r False p' s'"
      by (subst finditer_from.simps [of ic r False p "x # s"]) (simp only: fm len option.case prod.case if_True)
    with Cons.prems have
      "\<lparr>m_start = p, m_end = p', m_groups = g\<rparr> # finditer_from ic r False p' s' = [m]"
      by simp
    then have m: "m = \<lparr>m_start = p, m_end = p', m_groups = g\<rparr>"
      and c: "finditer_from ic r False p' s' = []" by auto
    have nopost: "\<forall>a t. s' = a @ t \<longrightarrow> \<not> matches_at ic r t"
      using finditer_none_conv [OF af c] by blast
    have f1: "x # s = [] @ w @ s'" by (simp only: w(1) append_Nil)
    have f2: "m = \<lparr>m_start = p + length ([]::string),
                 m_end = p + length ([]::string) + length w, m_groups = g\<rparr>"
      by (simp only: m w(2) list.size add_0_right)
    have f3: "\<forall>a c. ([]::string) = a @ c \<and> c \<noteq> [] \<longrightarrow> \<not> matches_at ic r (c @ w @ s')"
      by simp
    from f1 f2 w(3) f3 nopost show ?thesis by blast
  qed
qed

subsection \<open>The old source block\<close>

lemma code_char_of: "n < 256 \<Longrightarrow> code (char_of n) = n"
  by (simp add: code_def)

lemma lower_eq_fixed:
  assumes "lower x = c" and "code c < 97 \<or> (122 < code c \<and> code c < 224)"
  shows "x = c"
proof (cases "(65 \<le> code x \<and> code x \<le> 90) \<or> (192 \<le> code x \<and> code x \<le> 222 \<and> code x \<noteq> 215)")
  case True
  then have "c = char_of (code x + 32)" using assms(1) by (simp add: lower_def)
  moreover from True have "code x + 32 < 256" by auto
  ultimately have "code c = code x + 32" by (simp add: code_char_of)
  with True assms(2) show ?thesis by auto
next
  case False
  then have "lower x = x" unfolding lower_def by (simp only: if_False)
  with assms(1) show ?thesis by simp
qed

lemma ch_eq_fixed:
  assumes "ch_eq True c x"
      and "code c < 65 \<or> (90 < code c \<and> code c < 97) \<or> (122 < code c \<and> code c < 192)"
  shows "x = c"
proof -
  from assms(2) have "lower c = c" by (auto simp: lower_def)
  with assms(1) have "lower x = c" by (simp add: ch_eq_def)
  from lower_eq_fixed [OF this] assms(2) show ?thesis by auto
qed

lemma binds_SeqE:
  assumes "binds ic (Seq a b) w g"
  obtains u v ga gb where "w = u @ v" "g = gb @ ga" "binds ic a u ga" "binds ic b v gb"
  using assms by auto

lemma binds_GroupE:
  assumes "binds ic (Group n r) w g"
  obtains g' where "g = (n, w) # g'" "binds ic r w g'"
  using assms by auto

lemma binds_plain:
  assumes "names r = {}" and "binds ic r w g"
  shows "g = []" and "accepts ic r w"
proof -
  from binds_names [OF assms(2)] assms(1) show "g = []" by simp
  from binds_accepts [OF assms(2)] show "accepts ic r w" .
qed

lemma OLD_unfold:
  "OLD_BLOCK_RE = Seq (Group ''prefix'' old_prefix_rx)
     (Seq (Seq link_head_rx (Seq (Lit CHR ''|'') (Seq (Star is_space)
              (Seq (Group ''iaid'' (PlusLazy iaid_char)) link_tail_rx))))
          (Seq pdf_head_rx (Seq (Group ''pdf'' pdf_url_rx) pdf_tail_rx)))"
  by (simp add: OLD_BLOCK_RE_def old_link_rx_def old_pdf_rx_def)

lemma names_old_prefix: "names old_prefix_rx = {}"
  by (simp add: old_prefix_rx_def prefix_tail_rx_def)

lemma names_link_head: "names link_head_rx = {}"
  by (simp add: link_head_rx_def)

lemma names_link_tail: "names link_tail_rx = {}"
  by (simp add: link_tail_rx_def)

lemma names_pdf_head: "names pdf_head_rx = {}"
  by (simp add: pdf_head_rx_def)

lemma names_pdf_tail: "names pdf_tail_rx = {}"
  by (simp add: pdf_tail_rx_def)

lemma names_pdf_url: "names pdf_url_rx = {}"
  by (simp add: pdf_url_rx_def)

lemma anchor_free_OLD: "anchor_free OLD_BLOCK_RE"
  by (simp add: OLD_unfold old_prefix_rx_def prefix_tail_rx_def link_head_rx_def link_tail_rx_def
      pdf_head_rx_def pdf_tail_rx_def pdf_url_rx_def)

lemma bar_fixed: "ch_eq True CHR ''|'' x \<Longrightarrow> x = CHR ''|''"
  by (rule ch_eq_fixed) (simp_all add: code_def)

lemma old_prefix_shape:
  assumes "accepts True old_prefix_rx w"
  shows "\<exists>t. w = CHR ''|'' # t \<and> accepts True prefix_tail_rx t"
proof -
  from assms [unfolded old_prefix_rx_def] obtain u v where
    a: "w = u @ v" "accepts True (Lit CHR ''|'') u" "accepts True prefix_tail_rx v"
    by (rule accepts_SeqE)
  from a(2) obtain x where "u = [x]" "ch_eq True CHR ''|'' x" by auto
  with bar_fixed [of x] a(1,3) show ?thesis by simp
qed

lemma old_block_binds:
  assumes "binds True OLD_BLOCK_RE w g"
  shows "\<exists>pfx hd sp i0 tl ph p0 pt.
       w = pfx @ hd @ CHR ''|'' # sp @ i0 @ tl @ ph @ p0 @ pt
     \<and> g = [(''pdf'', p0), (''iaid'', i0), (''prefix'', pfx)]
     \<and> accepts True old_prefix_rx pfx \<and> accepts True link_head_rx hd
     \<and> (\<forall>x\<in>set sp. is_space x) \<and> i0 \<noteq> [] \<and> (\<forall>x\<in>set i0. iaid_char x)
     \<and> accepts True link_tail_rx tl \<and> accepts True pdf_head_rx ph
     \<and> accepts True pdf_url_rx p0 \<and> accepts True pdf_tail_rx pt"
proof -
  from assms [unfolded OLD_unfold] obtain pfx v1 g1 g2 where
    a1: "w = pfx @ v1" "g = g2 @ g1" "binds True (Group ''prefix'' old_prefix_rx) pfx g1"
        "binds True (Seq (Seq link_head_rx (Seq (Lit CHR ''|'') (Seq (Star is_space)
              (Seq (Group ''iaid'' (PlusLazy iaid_char)) link_tail_rx))))
          (Seq pdf_head_rx (Seq (Group ''pdf'' pdf_url_rx) pdf_tail_rx))) v1 g2"
    by (rule binds_SeqE)
  from a1(3) obtain g1' where a2: "g1 = (''prefix'', pfx) # g1'" "binds True old_prefix_rx pfx g1'"
    by (rule binds_GroupE)
  from binds_plain [OF names_old_prefix a2(2)] have p: "g1' = []" "accepts True old_prefix_rx pfx" .
  from a1(4) obtain lk pd g3 g4 where
    a3: "v1 = lk @ pd" "g2 = g4 @ g3"
        "binds True (Seq link_head_rx (Seq (Lit CHR ''|'') (Seq (Star is_space)
              (Seq (Group ''iaid'' (PlusLazy iaid_char)) link_tail_rx)))) lk g3"
        "binds True (Seq pdf_head_rx (Seq (Group ''pdf'' pdf_url_rx) pdf_tail_rx)) pd g4"
    by (rule binds_SeqE)
  from a3(3) obtain hd v2 g5 g6 where
    a4: "lk = hd @ v2" "g3 = g6 @ g5" "binds True link_head_rx hd g5"
        "binds True (Seq (Lit CHR ''|'') (Seq (Star is_space)
              (Seq (Group ''iaid'' (PlusLazy iaid_char)) link_tail_rx))) v2 g6"
    by (rule binds_SeqE)
  from binds_plain [OF names_link_head a4(3)] have h: "g5 = []" "accepts True link_head_rx hd" .
  from a4(4) obtain b v3 g7 g8 where
    a5: "v2 = b @ v3" "g6 = g8 @ g7" "binds True (Lit CHR ''|'') b g7"
        "binds True (Seq (Star is_space)
              (Seq (Group ''iaid'' (PlusLazy iaid_char)) link_tail_rx)) v3 g8"
    by (rule binds_SeqE)
  from a5(3) have b: "g7 = []" "b = [CHR ''|'']" using bar_fixed by auto
  from a5(4) obtain sp v4 g9 g10 where
    a6: "v3 = sp @ v4" "g8 = g10 @ g9" "binds True (Star is_space) sp g9"
        "binds True (Seq (Group ''iaid'' (PlusLazy iaid_char)) link_tail_rx) v4 g10"
    by (rule binds_SeqE)
  from a6(3) have s: "g9 = []" "\<forall>x\<in>set sp. is_space x" by simp_all
  from a6(4) obtain i0 tl g11 g12 where
    a7: "v4 = i0 @ tl" "g10 = g12 @ g11" "binds True (Group ''iaid'' (PlusLazy iaid_char)) i0 g11"
        "binds True link_tail_rx tl g12"
    by (rule binds_SeqE)
  from a7(3) have i: "g11 = [(''iaid'', i0)]" "i0 \<noteq> []" "\<forall>x\<in>set i0. iaid_char x" by auto
  from binds_plain [OF names_link_tail a7(4)] have t: "g12 = []" "accepts True link_tail_rx tl" .
  from a3(4) obtain ph v5 g13 g14 where
    a8: "pd = ph @ v5" "g4 = g14 @ g13" "binds True pdf_head_rx ph g13"
        "binds True (Seq (Group ''pdf'' pdf_url_rx) pdf_tail_rx) v5 g14"
    by (rule binds_SeqE)
  from binds_plain [OF names_pdf_head a8(3)] have ph: "g13 = []" "accepts True pdf_head_rx ph" .
  from a8(4) obtain p0 pt g15 g16 where
    a9: "v5 = p0 @ pt" "g14 = g16 @ g15" "binds True (Group ''pdf'' pdf_url_rx) p0 g15"
        "binds True pdf_tail_rx pt g16"
    by (rule binds_SeqE)
  from a9(3) obtain g15' where a10: "g15 = (''pdf'', p0) # g15'" "binds True pdf_url_rx p0 g15'"
    by (rule binds_GroupE)
  from binds_plain [OF names_pdf_url a10(2)] have u: "g15' = []" "accepts True pdf_url_rx p0" .
  from binds_plain [OF names_pdf_tail a9(4)] have pt: "g16 = []" "accepts True pdf_tail_rx pt" .
  have w: "w = pfx @ hd @ CHR ''|'' # sp @ i0 @ tl @ ph @ p0 @ pt"
    by (simp add: a1(1) a3(1) a4(1) a5(1) b(2) a6(1) a7(1) a8(1) a9(1))
  have g: "g = [(''pdf'', p0), (''iaid'', i0), (''prefix'', pfx)]"
    by (simp add: a1(2) a2(1) p(1) a3(2) a4(2) h(1) a5(2) b(1) a6(2) s(1) a7(2) i(1) t(1)
        a8(2) ph(1) a9(2) a10(1) u(1) pt(1))
  from w g p(2) h(2) s(2) i(2,3) t(2) ph(2) u(2) pt(2) show ?thesis by blast
qed

lemma old_block_nonempty: "accepts True OLD_BLOCK_RE w \<Longrightarrow> w \<noteq> []"
proof -
  assume "accepts True OLD_BLOCK_RE w"
  from this [unfolded OLD_unfold] obtain u v where a: "w = u @ v"
    "accepts True (Group ''prefix'' old_prefix_rx) u" by (rule accepts_SeqE)
  from a(2) have "accepts True old_prefix_rx u" by simp
  from old_prefix_shape [OF this] a(1) show "w \<noteq> []" by auto
qed

lemma finditer_old_one:
  assumes "finditer True OLD_BLOCK_RE text = [m]"
  shows "\<exists>pre w post. text = pre @ w @ post
        \<and> m_start m = length pre \<and> m_end m = length pre + length w
        \<and> binds True OLD_BLOCK_RE w (m_groups m)
        \<and> (\<forall>a c. pre = a @ c \<and> c \<noteq> [] \<longrightarrow> \<not> matches_at True OLD_BLOCK_RE (c @ w @ post))
        \<and> (\<forall>a t. post = a @ t \<longrightarrow> \<not> matches_at True OLD_BLOCK_RE t)"
proof -
  have ne: "\<forall>w. accepts True OLD_BLOCK_RE w \<longrightarrow> w \<noteq> []" using old_block_nonempty by blast
  from assms have "finditer_from True OLD_BLOCK_RE False 0 text = [m]" by (simp add: finditer_def)
  from finditer_one [OF anchor_free_OLD ne this] obtain pre w post g where
    d: "text = pre @ w @ post"
       "m = \<lparr>m_start = 0 + length pre, m_end = 0 + length pre + length w, m_groups = g\<rparr>"
       "binds True OLD_BLOCK_RE w g"
       "\<forall>a c. pre = a @ c \<and> c \<noteq> [] \<longrightarrow> \<not> matches_at True OLD_BLOCK_RE (c @ w @ post)"
       "\<forall>a t. post = a @ t \<longrightarrow> \<not> matches_at True OLD_BLOCK_RE t"
    by blast
  from d(2) have "m_start m = length pre" "m_end m = length pre + length w" "m_groups m = g"
    by simp_all
  with d(1,3,4,5) show ?thesis by blast
qed

lemma transform_none:
  "finditer True OLD_BLOCK_RE text = [] \<Longrightarrow> transform_wikitext text = Inr text"
  by (simp add: transform_wikitext_def)

lemma transform_one:
  assumes "finditer True OLD_BLOCK_RE text = [m]"
      and "group m ''prefix'' = Some pfx" "group m ''iaid'' = Some iaid0" "group m ''pdf'' = Some pdf0"
  shows "transform_wikitext text =
     (case derive_delpher_urn (strip iaid0) of
        Inl e \<Rightarrow> Inl e
      | Inr urn \<Rightarrow>
         (case build_new_source_block (strip iaid0) (strip pdf0) of
            Inl e \<Rightarrow> Inl e
          | Inr new_block \<Rightarrow>
              Inr (take (m_start m) text @ pfx @ new_block @ [NL] @ drop (m_end m) text)))"
  using assms by (simp add: transform_wikitext_def Let_def)

lemma transform_spliced:
  assumes "finditer True OLD_BLOCK_RE text = [m]"
  shows "\<exists>pre pfx rest post iaid0 pdf0.
           text = pre @ (pfx @ rest) @ post
         \<and> m_start m = length pre \<and> m_end m = length pre + length (pfx @ rest)
         \<and> group m ''prefix'' = Some pfx \<and> group m ''iaid'' = Some iaid0
         \<and> group m ''pdf'' = Some pdf0
         \<and> accepts True old_prefix_rx pfx
         \<and> transform_wikitext text =
             (case derive_delpher_urn (strip iaid0) of
                Inl e \<Rightarrow> Inl e
              | Inr urn \<Rightarrow>
                 (case build_new_source_block (strip iaid0) (strip pdf0) of
                    Inl e \<Rightarrow> Inl e
                  | Inr new_block \<Rightarrow> Inr (pre @ pfx @ new_block @ [NL] @ post)))"
proof -
  from finditer_old_one [OF assms] obtain pre w post where
    d: "text = pre @ w @ post" "m_start m = length pre" "m_end m = length pre + length w"
       "binds True OLD_BLOCK_RE w (m_groups m)" by blast
  from old_block_binds [OF d(4)] obtain pfx hd sp i0 tl ph p0 pt where
    s: "w = pfx @ hd @ CHR ''|'' # sp @ i0 @ tl @ ph @ p0 @ pt"
       "m_groups m = [(''pdf'', p0), (''iaid'', i0), (''prefix'', pfx)]"
       "accepts True old_prefix_rx pfx" by blast
  let ?rest = "hd @ CHR ''|'' # sp @ i0 @ tl @ ph @ p0 @ pt"
  have g: "group m ''prefix'' = Some pfx" "group m ''iaid'' = Some i0" "group m ''pdf'' = Some p0"
    by (simp_all add: group_def s(2))
  have w: "w = pfx @ ?rest" by (rule s(1))
  have tk: "take (m_start m) text = pre" by (simp add: d(1,2))
  have "drop (length pre + length w) (pre @ w @ post) = post" by simp
  then have dr: "drop (m_end m) text = post" by (simp only: d(1) d(3))
  have t: "text = pre @ (pfx @ ?rest) @ post" by (simp only: d(1) w)
  have e: "m_end m = length pre + length (pfx @ ?rest)" by (simp only: d(3) w)
  note r = transform_one [OF assms g, unfolded tk dr]
  from t d(2) e g s(3) r show ?thesis by blast
qed

subsection \<open>The range of the slicer\<close>

lemma py_match_binds:
  assumes "py_match ic r s = Some m"
  shows "\<exists>w. binds ic r w (m_groups m)"
proof -
  from assms obtain p' s' g rest where
    r: "rx_match ic r (0, s, []) = (p', s', g) # rest" "m_groups m = g"
    by (auto simp: py_match_def split: list.splits)
  from r(1) have "(p', s', g) \<in> set (rx_match ic r (0, s, []))" by simp
  from rx_match_binds [OF this] r(2) show ?thesis by auto
qed

lemma range_binds:
  assumes "binds False RANGE_RE w g"
  shows "\<exists>d1 d2. g = [(''2'', d2), (''1'', d1)]"
  using assms by (auto simp: RANGE_RE_def)

lemma range_groups:
  assumes "py_match False RANGE_RE s = Some m"
  shows "\<exists>d1 d2. group m ''1'' = Some d1 \<and> group m ''2'' = Some d2"
proof -
  from py_match_binds [OF assms] obtain w where "binds False RANGE_RE w (m_groups m)" by blast
  from range_binds [OF this] obtain d1 d2 where "m_groups m = [(''2'', d2), (''1'', d1)]" by blast
  then show ?thesis by (simp add: group_def)
qed

lemma strip_Nil: "strip [] = []"
  by (simp add: strip_def rstrip_def lstrip_def)

subsection \<open>The block builder\<close>

lemma rstrip_idem: "rstrip (rstrip s) = rstrip s"
  by (simp add: rstrip_def dropWhile_idem)

lemma lstrip_rstrip: "lstrip (rstrip (lstrip s)) = rstrip (lstrip s)"
proof (cases "lstrip s")
  case Nil
  have "rstrip [] = []" by (simp add: rstrip_def)
  moreover have "lstrip [] = []" by (simp add: lstrip_def)
  ultimately show ?thesis unfolding Nil by simp
next
  case (Cons x t)
  then have "\<not> is_space x" unfolding lstrip_def using hd_dropWhile [of is_space s] by auto
  from rstrip_nonspace [OF this, of "[]" t] Cons lstrip_nonspace [OF \<open>\<not> is_space x\<close>]
  show ?thesis by simp
qed

lemma strip_idem: "strip (strip s) = strip s"
  by (simp add: strip_def lstrip_rstrip rstrip_idem)

lemma derive_urn_error: "derive_delpher_urn s = Inl e \<Longrightarrow> e = MalformedIdentifier"
  by (auto simp: derive_delpher_urn_def split: if_splits option.splits)

lemma derive_urn_nonempty: "derive_delpher_urn s = Inr u \<Longrightarrow> strip s \<noteq> []"
  by (auto simp: derive_delpher_urn_def split: if_splits)

lemma pdf_url_empty: "py_match False PDF_URL_RE [] = None"
  by code_simp

lemma build_block_eq:
  assumes "derive_delpher_urn ia = Inr urn"
  shows "build_new_source_block ia pdf =
           (if py_match False PDF_URL_RE (strip pdf) = None then Inl MalformedUrl
            else Inr (replacement_block ia (strip pdf) urn))"
proof (cases "strip pdf = []")
  case True
  with pdf_url_empty derive_urn_nonempty [OF assms] show ?thesis
    by (simp add: build_new_source_block_def)
next
  case False
  with derive_urn_nonempty [OF assms] assms show ?thesis
    by (auto simp: build_new_source_block_def Let_def replacement_block_def split: option.splits)
qed

lemma transform_spliced_block:
  assumes "finditer True OLD_BLOCK_RE s = [m]"
  shows "\<exists>pre pfx rest post iaid0 pdf0.
           s = pre @ (pfx @ rest) @ post
         \<and> m_start m = length pre \<and> m_end m = length pre + length (pfx @ rest)
         \<and> group m ''prefix'' = Some pfx \<and> group m ''iaid'' = Some iaid0
         \<and> group m ''pdf'' = Some pdf0
         \<and> accepts True old_prefix_rx pfx
         \<and> transform_wikitext s =
             (case derive_delpher_urn (strip iaid0) of
                Inl e \<Rightarrow> Inl MalformedIdentifier
              | Inr urn \<Rightarrow>
                  if py_match False PDF_URL_RE (strip pdf0) = None then Inl MalformedUrl
                  else Inr (pre @ pfx @ replacement_block (strip iaid0) (strip pdf0) urn
                            @ [NL] @ post))"
proof -
  from transform_spliced [OF assms] obtain pre pfx rest post iaid0 pdf0 where
    d: "s = pre @ (pfx @ rest) @ post"
       "m_start m = length pre" "m_end m = length pre + length (pfx @ rest)"
       "group m ''prefix'' = Some pfx" "group m ''iaid'' = Some iaid0"
       "group m ''pdf'' = Some pdf0" "accepts True old_prefix_rx pfx"
       "transform_wikitext s =
             (case derive_delpher_urn (strip iaid0) of
                Inl e \<Rightarrow> Inl e
              | Inr urn \<Rightarrow>
                 (case build_new_source_block (strip iaid0) (strip pdf0) of
                    Inl e \<Rightarrow> Inl e
                  | Inr new_block \<Rightarrow> Inr (pre @ pfx @ new_block @ [NL] @ post)))"
    by blast
  have "transform_wikitext s =
             (case derive_delpher_urn (strip iaid0) of
                Inl e \<Rightarrow> Inl MalformedIdentifier
              | Inr urn \<Rightarrow>
                  if py_match False PDF_URL_RE (strip pdf0) = None then Inl MalformedUrl
                  else Inr (pre @ pfx @ replacement_block (strip iaid0) (strip pdf0) urn
                            @ [NL] @ post))"
  proof (cases "derive_delpher_urn (strip iaid0)")
    case (Inl e)
    with derive_urn_error [OF Inl] d(8) show ?thesis by simp
  next
    case (Inr urn)
    from build_block_eq [OF Inr, of "strip pdf0"] d(8) Inr show ?thesis
      by (simp add: strip_idem)
  qed
  with d(1-7) show ?thesis by blast
qed

subsection \<open>Words of the old source block\<close>

lemma accepts_may: "accepts ic r w \<Longrightarrow> x \<in> set w \<Longrightarrow> may ic r x"
proof (induction r arbitrary: w)
  case (Seq a b)
  from Seq.prems(1) obtain u v where uv: "w = u @ v" "accepts ic a u" "accepts ic b v"
    by (rule accepts_SeqE)
  from Seq.prems(2) uv(1) have "x \<in> set u \<or> x \<in> set v" by simp
  with Seq.IH(1) [OF uv(2)] Seq.IH(2) [OF uv(3)] show ?case by auto
qed auto

lemma accepts_ends_lit:
  "accepts ic r w \<Longrightarrow> ends_lit r c \<Longrightarrow> \<exists>q x. w = q @ [x] \<and> ch_eq ic c x"
proof (induction r arbitrary: w)
  case (Seq a b)
  from Seq.prems(1) obtain u v where uv: "w = u @ v" "accepts ic a u" "accepts ic b v"
    by (rule accepts_SeqE)
  from Seq.prems(2) have "ends_lit b c" by simp
  from Seq.IH(2) [OF uv(3) this] obtain q x where "v = q @ [x]" "ch_eq ic c x" by blast
  with uv(1) have "w = (u @ q) @ [x] \<and> ch_eq ic c x" by simp
  then show ?case by blast
qed auto

lemma accepts_star_lit:
  assumes "accepts ic (Seq (Star f) (Seq (Lit c) r)) w"
  shows "\<exists>ws x w'. w = ws @ x # w' \<and> (\<forall>y\<in>set ws. f y) \<and> ch_eq ic c x \<and> accepts ic r w'"
proof -
  from assms obtain ws v where a: "w = ws @ v" "accepts ic (Star f) ws"
    "accepts ic (Seq (Lit c) r) v" by (rule accepts_SeqE)
  from a(3) obtain l w' where b: "v = l @ w'" "accepts ic (Lit c) l" "accepts ic r w'"
    by (rule accepts_SeqE)
  from b(2) obtain x where x: "l = [x]" "ch_eq ic c x" by auto
  from a(1,2) b(1,3) x have "w = ws @ x # w' \<and> (\<forall>y\<in>set ws. f y) \<and> ch_eq ic c x \<and> accepts ic r w'" by simp
  then show ?thesis by blast
qed

lemma app_eq_split:
  assumes "xs @ ys = us @ c # vs"
  shows "(\<exists>r. xs = us @ c # r \<and> vs = r @ ys) \<or> (\<exists>r. us = xs @ r \<and> ys = r @ c # vs)"
proof -
  from assms [unfolded append_eq_append_conv2] obtain t where
    "(xs = us @ t \<and> t @ ys = c # vs) \<or> (xs @ t = us \<and> ys = t @ c # vs)" by blast
  then show ?thesis
  proof
    assume a: "xs = us @ t \<and> t @ ys = c # vs"
    show ?thesis
    proof (cases t)
      case Nil
      with a have "us = xs @ [] \<and> ys = [] @ c # vs" by simp
      then show ?thesis by blast
    next
      case (Cons y t')
      with a have "xs = us @ c # t' \<and> vs = t' @ ys" by simp
      then show ?thesis by blast
    qed
  next
    assume "xs @ t = us \<and> ys = t @ c # vs"
    then have "us = xs @ t \<and> ys = t @ c # vs" by simp
    then show ?thesis by blast
  qed
qed

lemma split_clash:
  assumes "a @ c # x = b @ d # y" and "c \<notin> set b" and "d \<notin> set a"
  shows "a = b \<and> c = d \<and> x = y"
proof -
  from app_eq_split [OF assms(1)] show ?thesis
  proof
    assume "\<exists>r. a = b @ d # r \<and> y = r @ c # x"
    with assms(3) show ?thesis by auto
  next
    assume "\<exists>r. b = a @ r \<and> c # x = r @ d # y"
    then obtain r where r: "b = a @ r" "c # x = r @ d # y" by blast
    show ?thesis
    proof (cases r)
      case Nil
      with r show ?thesis by simp
    next
      case (Cons z r')
      with r have "c \<in> set b" by simp
      with assms(2) show ?thesis by simp
    qed
  qed
qed

lemma three_zone:
  assumes eq: "sp @ i0 @ ws = u1 @ s # u2 @ i # u4"
      and sp: "\<forall>x\<in>set sp. P x" and ws: "\<forall>x\<in>set ws. P x"
      and i0: "n \<notin> set i0" and s: "\<not> P s" and n: "n \<in> set u2" and i: "\<not> P i"
  shows False
proof -
  from app_eq_split [OF eq] sp s obtain r where r: "u1 = sp @ r" "i0 @ ws = r @ s # u2 @ i # u4"
    by auto
  from app_eq_split [OF r(2)] ws s obtain r3 where r3: "i0 = r @ s # r3" "u2 @ i # u4 = r3 @ ws"
    by auto
  from app_eq_split [OF r3(2) [symmetric]] ws i obtain r4 where "r3 = u2 @ i # r4" by auto
  with r3(1) n i0 show False by simp
qed

lemma accepts_binds: "accepts ic r w \<Longrightarrow> \<exists>g. binds ic r w g"
proof (induction r arbitrary: w)
  case (Seq a b)
  from Seq.prems obtain u v where uv: "w = u @ v" "accepts ic a u" "accepts ic b v"
    by (rule accepts_SeqE)
  from Seq.IH(1) [OF uv(2)] obtain ga where ga: "binds ic a u ga" by blast
  from Seq.IH(2) [OF uv(3)] obtain gb where gb: "binds ic b v gb" by blast
  from uv(1) ga gb have "binds ic (Seq a b) w (gb @ ga)" by auto
  then show ?case by blast
next
  case (Opt r)
  show ?case
  proof (cases "w = []")
    case True
    then have "binds ic (Opt r) w []" by simp
    then show ?thesis by blast
  next
    case False
    with Opt.prems have "accepts ic r w" by simp
    from Opt.IH [OF this] obtain g where "binds ic r w g" by blast
    then have "binds ic (Opt r) w g" by simp
    then show ?thesis by blast
  qed
next
  case (Group n r)
  from Group.prems have "accepts ic r w" by simp
  from Group.IH [OF this] obtain g where "binds ic r w g" by blast
  then have "binds ic (Group n r) w ((n, w) # g)" by simp
  then show ?case by blast
qed auto

lemma space_lower: "is_space x \<Longrightarrow> lower x = x"
  by (auto simp: is_space_def lower_def)

lemma s_not_space: "ch_eq True CHR ''s'' x \<Longrightarrow> \<not> is_space x"
proof
  assume a: "ch_eq True CHR ''s'' x" and b: "is_space x"
  have "lower CHR ''s'' = CHR ''s''" by (simp add: lower_def code_def)
  with a space_lower [OF b] have "x = CHR ''s''" by (simp add: ch_eq_def)
  with b show False by (simp add: is_space_def code_def)
qed

lemma NL_fixed: "ch_eq True NL x \<Longrightarrow> x = NL"
  by (rule ch_eq_fixed) (simp_all add: code_def)

lemma colon_fixed: "ch_eq True CHR '':'' x \<Longrightarrow> x = CHR '':''"
  by (rule ch_eq_fixed) (simp_all add: code_def)

lemma brace_fixed: "ch_eq True CHR ''}'' x \<Longrightarrow> x = CHR ''}''"
  by (rule ch_eq_fixed) (simp_all add: code_def)

lemma space_NL: "is_space NL"
  by (simp add: is_space_def code_def)

lemma not_space_bar: "\<not> is_space CHR ''|''"
  by (simp add: is_space_def code_def)

lemma not_space_brace: "\<not> is_space CHR ''}''"
  by (simp add: is_space_def code_def)

lemma not_space_I: "\<not> is_space CHR ''I''"
  by (simp add: is_space_def code_def)

lemma prefix_tail_unfold:
  "prefix_tail_rx = Seq (Star is_space) (Seq (Lit CHR ''s'')
     (seqs (lits ''ource'' @ [Star is_space, Lit CHR ''='', Star is_space, Lit NL])))"
  by (simp add: prefix_tail_rx_def)

lemma prefix_tail_ends: "ends_lit prefix_tail_rx NL"
  by (simp add: prefix_tail_rx_def)

lemma prefix_tail_may:
  "\<not> may True prefix_tail_rx CHR ''|''" "\<not> may True prefix_tail_rx CHR ''}''"
  "\<not> may True prefix_tail_rx CHR '':''" "\<not> may True prefix_tail_rx CHR ''I''"
  by code_simp+

lemma link_head_may: "\<not> may True link_head_rx CHR ''|''"
  by code_simp

lemma link_tail_may: "\<not> may True link_tail_rx CHR ''|''"
  by code_simp

lemma pdf_head_may: "\<not> may True pdf_head_rx CHR ''|''"
  by code_simp

lemma pdf_url_may: "\<not> may True pdf_url_rx CHR ''|''"
  by code_simp

lemma pdf_tail_may: "\<not> may True pdf_tail_rx CHR ''|''"
  by code_simp

lemma not_may_notin: "accepts ic r w \<Longrightarrow> \<not> may ic r x \<Longrightarrow> x \<notin> set w"
  using accepts_may by blast

lemma prefix_shape:
  assumes "accepts True old_prefix_rx pfx"
  shows "\<exists>ws0 x r. pfx = CHR ''|'' # ws0 @ x # r @ [NL] \<and> \<not> is_space x
           \<and> CHR ''|'' \<notin> set (ws0 @ x # r @ [NL]) \<and> CHR ''}'' \<notin> set (ws0 @ x # r @ [NL])
           \<and> CHR '':'' \<notin> set (ws0 @ x # r @ [NL]) \<and> CHR ''I'' \<notin> set (ws0 @ x # r @ [NL])"
proof -
  from old_prefix_shape [OF assms] obtain t where
    t: "pfx = CHR ''|'' # t" "accepts True prefix_tail_rx t" by blast
  from accepts_star_lit [OF t(2) [unfolded prefix_tail_unfold]] obtain ws0 x w' where
    a: "t = ws0 @ x # w'" "ch_eq True CHR ''s'' x" by blast
  from accepts_ends_lit [OF t(2) prefix_tail_ends] obtain q z where
    b: "t = q @ [z]" "ch_eq True NL z" by blast
  from NL_fixed [OF b(2)] have z: "z = NL" .
  have x: "\<not> is_space x" using s_not_space [OF a(2)] .
  have "\<exists>r. w' = r @ [NL]"
  proof (cases w' rule: rev_cases)
    case Nil
    with a(1) b(1) z have "x = NL" by simp
    with x space_NL show ?thesis by simp
  next
    case (snoc r l)
    with a(1) b(1) z have "(ws0 @ x # r) @ [l] = q @ [NL]" by simp
    then have "l = NL" by (simp only: append1_eq_conv)
    with snoc show ?thesis by simp
  qed
  then obtain r where r: "w' = r @ [NL]" by blast
  have e: "t = ws0 @ x # r @ [NL]" by (simp add: a(1) r)
  note n = not_may_notin [OF t(2)]
  from n [OF prefix_tail_may(1)] n [OF prefix_tail_may(2)] n [OF prefix_tail_may(3)]
    n [OF prefix_tail_may(4)]
  have "CHR ''|'' \<notin> set t" "CHR ''}'' \<notin> set t" "CHR '':'' \<notin> set t" "CHR ''I'' \<notin> set t" .
  then have "pfx = CHR ''|'' # ws0 @ x # r @ [NL] \<and> \<not> is_space x
           \<and> CHR ''|'' \<notin> set (ws0 @ x # r @ [NL]) \<and> CHR ''}'' \<notin> set (ws0 @ x # r @ [NL])
           \<and> CHR '':'' \<notin> set (ws0 @ x # r @ [NL]) \<and> CHR ''I'' \<notin> set (ws0 @ x # r @ [NL])"
    using t(1) x unfolding e by simp
  then show ?thesis by blast
qed

lemma link_head_unfold:
  "link_head_rx = Seq (Star is_space) (Seq (Lit CHR '':'')
     (seqs ([Star is_space, Lit CHR ''{'', Lit CHR ''{'', Star is_space] @ lits ''Internet''
            @ [Plus is_space] @ lits ''Archive'' @ [Plus is_space] @ lits ''link''
            @ [Star is_space])))"
  by (simp add: link_head_rx_def)

lemma link_tail_unfold:
  "link_tail_rx = Seq (Star is_space) (Seq (Lit CHR ''}'')
     (seqs [Lit CHR ''}'', Star is_space, Lit NL]))"
  by (simp add: link_tail_rx_def)

lemma iaid_char_set:
  "\<forall>x\<in>set i0. iaid_char x \<Longrightarrow> NL \<notin> set i0 \<and> CHR ''}'' \<notin> set i0"
  by (auto simp: iaid_char_def)

lemma word_shape:
  assumes "accepts True OLD_BLOCK_RE W"
  shows "\<exists>pfx ws1 h2 sp i0 ws2 Z.
       W = pfx @ (ws1 @ CHR '':'' # h2) @ CHR ''|'' # sp @ i0 @ ws2 @ CHR ''}'' # Z
     \<and> accepts True old_prefix_rx pfx
     \<and> (\<forall>x\<in>set ws1. is_space x) \<and> CHR ''|'' \<notin> set h2
     \<and> (\<forall>x\<in>set sp. is_space x) \<and> NL \<notin> set i0 \<and> CHR ''}'' \<notin> set i0
     \<and> (\<forall>x\<in>set ws2. is_space x) \<and> CHR ''|'' \<notin> set Z"
proof -
  from accepts_binds [OF assms] obtain g where "binds True OLD_BLOCK_RE W g" by blast
  from old_block_binds [OF this] obtain pfx hd sp i0 tl ph p0 pt where
    s: "W = pfx @ hd @ CHR ''|'' # sp @ i0 @ tl @ ph @ p0 @ pt"
       "accepts True old_prefix_rx pfx" "accepts True link_head_rx hd"
       "\<forall>x\<in>set sp. is_space x" "\<forall>x\<in>set i0. iaid_char x"
       "accepts True link_tail_rx tl" "accepts True pdf_head_rx ph"
       "accepts True pdf_url_rx p0" "accepts True pdf_tail_rx pt" by blast
  from accepts_star_lit [OF s(3) [unfolded link_head_unfold]] obtain ws1 c h2 where
    h: "hd = ws1 @ c # h2" "\<forall>y\<in>set ws1. is_space y" "ch_eq True CHR '':'' c" by blast
  from colon_fixed [OF h(3)] have c: "c = CHR '':''" .
  from not_may_notin [OF s(3) link_head_may] h(1) have h2: "CHR ''|'' \<notin> set h2" by simp
  from accepts_star_lit [OF s(6) [unfolded link_tail_unfold]] obtain ws2 d t2 where
    t: "tl = ws2 @ d # t2" "\<forall>y\<in>set ws2. is_space y" "ch_eq True CHR ''}'' d" by blast
  from brace_fixed [OF t(3)] have d: "d = CHR ''}''" .
  from not_may_notin [OF s(6) link_tail_may] t(1) have t2: "CHR ''|'' \<notin> set t2" by simp
  note z = t2 not_may_notin [OF s(7) pdf_head_may] not_may_notin [OF s(8) pdf_url_may]
    not_may_notin [OF s(9) pdf_tail_may]
  then have Z: "CHR ''|'' \<notin> set (t2 @ ph @ p0 @ pt)" by simp
  have W: "W = pfx @ (ws1 @ CHR '':'' # h2) @ CHR ''|'' # sp @ i0 @ ws2 @ CHR ''}'' # (t2 @ ph @ p0 @ pt)"
    by (simp add: s(1) h(1) c t(1) d)
  from iaid_char_set [OF s(5)] have i: "NL \<notin> set i0" "CHR ''}'' \<notin> set i0" by simp_all
  from W s(2) h(2) h2 s(4) i t(2) Z show ?thesis by blast
qed

subsection \<open>No old source block in a transformed page\<close>

lemma prefix_bar:
  assumes "accepts True old_prefix_rx pfx"
  shows "\<exists>t. pfx = CHR ''|'' # t \<and> CHR ''|'' \<notin> set t \<and> CHR ''}'' \<notin> set t
            \<and> CHR '':'' \<notin> set t \<and> CHR ''I'' \<notin> set t"
  using prefix_shape [OF assms] by blast

lemma no_match_at_block:
  assumes W: "accepts True OLD_BLOCK_RE W" and pfx: "accepts True old_prefix_rx pfx"
      and eq: "pfx @ CHR ''I'' # X = W @ R"
  shows False
proof -
  from word_shape [OF W] obtain pfx' ws1 h2 sp i0 ws2 Z where
    w: "W = pfx' @ (ws1 @ CHR '':'' # h2) @ CHR ''|'' # sp @ i0 @ ws2 @ CHR ''}'' # Z"
       "accepts True old_prefix_rx pfx'" "\<forall>x\<in>set ws1. is_space x" by blast
  from prefix_bar [OF pfx] have c1: "CHR '':'' \<notin> set pfx" by auto
  from prefix_bar [OF w(2)] have "CHR ''I'' \<notin> set pfx'" by auto
  moreover from w(3) not_space_I have "CHR ''I'' \<notin> set ws1" by blast
  ultimately have c2: "CHR ''I'' \<notin> set (pfx' @ ws1)" by simp
  have "pfx @ CHR ''I'' # X
        = (pfx' @ ws1) @ CHR '':'' # (h2 @ CHR ''|'' # sp @ i0 @ ws2 @ CHR ''}'' # Z @ R)"
    by (simp add: eq w(1))
  from split_clash [OF this c2 c1] show False by simp
qed

lemma no_match_in_link:
  assumes W: "accepts True OLD_BLOCK_RE W"
      and eq: "CHR ''|'' # i2 @ CHR ''}'' # X = W @ R" and i2: "NL \<notin> set i2"
  shows False
proof -
  from word_shape [OF W] obtain pfx' ws1 h2 sp i0 ws2 Z where
    w: "W = pfx' @ (ws1 @ CHR '':'' # h2) @ CHR ''|'' # sp @ i0 @ ws2 @ CHR ''}'' # Z"
       "accepts True old_prefix_rx pfx'" by blast
  from prefix_shape [OF w(2)] obtain ws0 x r where
    p: "pfx' = CHR ''|'' # ws0 @ x # r @ [NL]" "CHR ''}'' \<notin> set (ws0 @ x # r @ [NL])" by blast
  from p(2) have b: "CHR ''}'' \<notin> set (ws0 @ x # r)" by simp
  have "i2 @ CHR ''}'' # X = (ws0 @ x # r) @ NL
          # ((ws1 @ CHR '':'' # h2) @ CHR ''|'' # sp @ i0 @ ws2 @ CHR ''}'' # Z @ R)"
    using eq by (simp add: w(1) p(1))
  from split_clash [OF this b i2] show False by simp
qed

lemma bars_of_block:
  assumes eq: "c @ CHR ''|'' # d = CHR ''|'' # X @ CHR ''|'' # iaid @ CHR ''}'' # B"
      and X: "CHR ''|'' \<notin> set X" and B: "CHR ''|'' \<notin> set B"
  shows "(c = [] \<and> d = X @ CHR ''|'' # iaid @ CHR ''}'' # B)
         \<or> (\<exists>i1 i2. iaid = i1 @ i2 \<and> d = i2 @ CHR ''}'' # B)"
proof (cases c)
  case Nil
  with eq show ?thesis by simp
next
  case (Cons z c')
  with eq have e1: "X @ (CHR ''|'' # iaid @ CHR ''}'' # B) = c' @ CHR ''|'' # d" by simp
  from app_eq_split [OF e1] X obtain r where
    r: "c' = X @ r" "CHR ''|'' # iaid @ CHR ''}'' # B = r @ CHR ''|'' # d" by auto
  show ?thesis
  proof (cases r)
    case Nil
    with r(2) have "iaid = [] @ iaid \<and> d = iaid @ CHR ''}'' # B" by simp
    then show ?thesis by blast
  next
    case (Cons z' r')
    with r(2) have e2: "iaid @ (CHR ''}'' # B) = r' @ CHR ''|'' # d" by simp
    from app_eq_split [OF e2] show ?thesis
    proof
      assume "\<exists>r2. iaid = r' @ CHR ''|'' # r2 \<and> d = r2 @ CHR ''}'' # B"
      then obtain r2 where "iaid = (r' @ [CHR ''|'']) @ r2 \<and> d = r2 @ CHR ''}'' # B" by auto
      then show ?thesis by blast
    next
      assume "\<exists>r2. r' = iaid @ r2 \<and> CHR ''}'' # B = r2 @ CHR ''|'' # d"
      then obtain r2 where r2: "CHR ''}'' # B = r2 @ CHR ''|'' # d" by blast
      show ?thesis
      proof (cases r2)
        case Nil
        with r2 show ?thesis by simp
      next
        case (Cons z2 r2')
        with r2 have "B = r2' @ CHR ''|'' # d" by simp
        with B show ?thesis by simp
      qed
    qed
  qed
qed

lemma bar_in_word:
  assumes eq: "(CHR ''|'' # Y) @ CHR ''|'' # sp @ i0 @ ws2 @ CHR ''}'' # Z = c @ CHR ''|'' # e"
      and c: "c \<noteq> []" and Y: "CHR ''|'' \<notin> set Y" and sp: "\<forall>x\<in>set sp. is_space x"
      and ws2: "\<forall>x\<in>set ws2. is_space x" and Z: "CHR ''|'' \<notin> set Z"
  shows "\<exists>S I. e = S @ I @ ws2 @ CHR ''}'' # Z \<and> (\<forall>x\<in>set S. is_space x) \<and> set I \<subseteq> set i0"
proof -
  from app_eq_split [OF eq] have
    "(\<exists>r. CHR ''|'' # Y = c @ CHR ''|'' # r) \<or>
     (\<exists>r. CHR ''|'' # sp @ i0 @ ws2 @ CHR ''}'' # Z = r @ CHR ''|'' # e)" by blast
  then show ?thesis
  proof
    assume "\<exists>r. CHR ''|'' # Y = c @ CHR ''|'' # r"
    then obtain r where r: "CHR ''|'' # Y = c @ CHR ''|'' # r" by blast
    from c obtain z c' where "c = z # c'" by (cases c) auto
    with r have "Y = c' @ CHR ''|'' # r" by simp
    with Y show ?thesis by simp
  next
    assume "\<exists>r. CHR ''|'' # sp @ i0 @ ws2 @ CHR ''}'' # Z = r @ CHR ''|'' # e"
    then obtain r where r: "CHR ''|'' # sp @ i0 @ ws2 @ CHR ''}'' # Z = r @ CHR ''|'' # e" by blast
    show ?thesis
    proof (cases r)
      case Nil
      with r have "e = sp @ i0 @ ws2 @ CHR ''}'' # Z" by simp
      with sp show ?thesis by blast
    next
      case (Cons z r')
      with r have e1: "sp @ (i0 @ ws2 @ CHR ''}'' # Z) = r' @ CHR ''|'' # e" by simp
      from app_eq_split [OF e1] sp not_space_bar obtain r2 where
        e2: "i0 @ (ws2 @ CHR ''}'' # Z) = r2 @ CHR ''|'' # e" by auto
      from app_eq_split [OF e2] show ?thesis
      proof
        assume "\<exists>r3. i0 = r2 @ CHR ''|'' # r3 \<and> e = r3 @ ws2 @ CHR ''}'' # Z"
        then obtain r3 where r3: "i0 = r2 @ CHR ''|'' # r3" "e = r3 @ ws2 @ CHR ''}'' # Z" by blast
        from r3(1) have "set r3 \<subseteq> set i0" by auto
        with r3(2) have "e = [] @ r3 @ ws2 @ CHR ''}'' # Z \<and> (\<forall>x\<in>set ([]::string). is_space x)
            \<and> set r3 \<subseteq> set i0" by simp
        then show ?thesis by blast
      next
        assume "\<exists>r3. r2 = i0 @ r3 \<and> ws2 @ CHR ''}'' # Z = r3 @ CHR ''|'' # e"
        then obtain r3 where e3: "ws2 @ (CHR ''}'' # Z) = r3 @ CHR ''|'' # e" by auto
        from app_eq_split [OF e3] ws2 not_space_bar obtain r4 where
          e4: "CHR ''}'' # Z = r4 @ CHR ''|'' # e" by auto
        show ?thesis
        proof (cases r4)
          case Nil
          with e4 show ?thesis by simp
        next
          case (Cons z4 r4')
          with e4 have "Z = r4' @ CHR ''|'' # e" by simp
          with Z show ?thesis by simp
        qed
      qed
    qed
  qed
qed

lemma no_match_across:
  assumes W: "accepts True OLD_BLOCK_RE W" and pfx: "accepts True old_prefix_rx pfx"
      and eq: "W = c @ CHR ''|'' # e" and c: "c \<noteq> []"
      and eR: "CHR ''|'' # e @ R = pfx @ CHR ''I'' # A @ CHR ''|'' # iaid @ CHR ''}'' # B"
      and A: "CHR ''}'' \<notin> set A" and iaid: "CHR ''}'' \<notin> set iaid"
  shows False
proof -
  from word_shape [OF W] obtain pfx' ws1 h2 sp i0 ws2 Z where
    w: "W = pfx' @ (ws1 @ CHR '':'' # h2) @ CHR ''|'' # sp @ i0 @ ws2 @ CHR ''}'' # Z"
       "accepts True old_prefix_rx pfx'" "\<forall>x\<in>set ws1. is_space x" "CHR ''|'' \<notin> set h2"
       "\<forall>x\<in>set sp. is_space x" "NL \<notin> set i0" "CHR ''}'' \<notin> set i0"
       "\<forall>x\<in>set ws2. is_space x" "CHR ''|'' \<notin> set Z" by blast
  from prefix_bar [OF w(2)] obtain t' where
    t': "pfx' = CHR ''|'' # t'" "CHR ''|'' \<notin> set t'" by blast
  from w(3) not_space_bar have "CHR ''|'' \<notin> set ws1" by blast
  with t'(2) w(4) have Y: "CHR ''|'' \<notin> set (t' @ ws1 @ CHR '':'' # h2)" by simp
  have "(CHR ''|'' # (t' @ ws1 @ CHR '':'' # h2)) @ CHR ''|'' # sp @ i0 @ ws2 @ CHR ''}'' # Z
        = c @ CHR ''|'' # e"
    using eq by (simp add: w(1) t'(1))
  from bar_in_word [OF this c Y w(5) w(8) w(9)] obtain S I where
    e: "e = S @ I @ ws2 @ CHR ''}'' # Z" "\<forall>x\<in>set S. is_space x" "set I \<subseteq> set i0" by blast
  from e(3) w(6,7) have I: "NL \<notin> set I" "CHR ''}'' \<notin> set I" by auto
  from prefix_shape [OF pfx] obtain ws0 x r where
    p: "pfx = CHR ''|'' # ws0 @ x # r @ [NL]" "\<not> is_space x"
       "CHR ''}'' \<notin> set (ws0 @ x # r @ [NL])" by blast
  from e(2) w(8) not_space_brace have "CHR ''}'' \<notin> set S" "CHR ''}'' \<notin> set ws2" by blast+
  with I(2) have l: "CHR ''}'' \<notin> set (S @ I @ ws2)" by simp
  from p(3) A iaid have m: "CHR ''}'' \<notin> set (ws0 @ x # (r @ [NL]) @ CHR ''I'' # (A @ CHR ''|'' # iaid))"
    by simp
  have "(S @ I @ ws2) @ CHR ''}'' # (Z @ R)
        = (ws0 @ x # (r @ [NL]) @ CHR ''I'' # (A @ CHR ''|'' # iaid)) @ CHR ''}'' # B"
    using eR by (simp add: e(1) p(1))
  from split_clash [OF this m l]
  have z: "S @ I @ ws2 = ws0 @ x # (r @ [NL]) @ CHR ''I'' # (A @ CHR ''|'' # iaid)" by simp
  have n: "NL \<in> set (r @ [NL])" by simp
  from three_zone [OF z e(2) w(8) I(1) p(2) n not_space_I] show False .
qed

lemma app_eq_cases:
  assumes "xs @ ys = zs @ ts"
  shows "\<exists>us. (xs = zs @ us \<and> us @ ys = ts) \<or> (xs @ us = zs \<and> ys = us @ ts)"
  using assms by (simp only: append_eq_append_conv2)

lemma spliced_no_match:
  assumes pfx: "accepts True old_prefix_rx pfx"
      and A: "CHR ''|'' \<notin> set A" "CHR ''}'' \<notin> set A"
      and iaid: "NL \<notin> set iaid" "CHR ''}'' \<notin> set iaid"
      and B: "CHR ''|'' \<notin> set B"
      and nopre: "\<forall>a c. pre = a @ c \<and> c \<noteq> [] \<longrightarrow> \<not> matches_at True OLD_BLOCK_RE (c @ (pfx @ rest) @ post)"
      and nopost: "\<forall>a t. post = a @ t \<longrightarrow> \<not> matches_at True OLD_BLOCK_RE t"
      and y: "pre @ (pfx @ CHR ''I'' # A @ CHR ''|'' # iaid @ CHR ''}'' # B) @ post = a @ T"
  shows "\<not> matches_at True OLD_BLOCK_RE T"
proof
  assume "matches_at True OLD_BLOCK_RE T"
  then obtain W R where T: "T = W @ R" and W: "accepts True OLD_BLOCK_RE W"
    by (auto simp: matches_at_def)
  let ?mid = "pfx @ CHR ''I'' # A @ CHR ''|'' # iaid @ CHR ''}'' # B"
  from prefix_bar [OF pfx] obtain t where
    t: "pfx = CHR ''|'' # t" "CHR ''|'' \<notin> set t" "CHR ''}'' \<notin> set t" "CHR ''I'' \<notin> set t" by blast
  from word_shape [OF W] obtain pfx' Wt where "W = pfx' @ Wt" "accepts True old_prefix_rx pfx'"
    by blast
  with prefix_bar [of pfx'] obtain W' where W': "W = CHR ''|'' # W'" by auto
  from y have "pre @ (?mid @ post) = a @ T" by simp
  from app_eq_cases [OF this] obtain c where
    "(pre = a @ c \<and> c @ ?mid @ post = T) \<or> (pre @ c = a \<and> ?mid @ post = c @ T)" by blast
  then show False
  proof
    assume h: "pre = a @ c \<and> c @ ?mid @ post = T"
    show False
    proof (cases "c = []")
      case True
      with h T have "pfx @ CHR ''I'' # (A @ CHR ''|'' # iaid @ CHR ''}'' # B @ post) = W @ R" by simp
      from no_match_at_block [OF W pfx this] show False .
    next
      case False
      from h T have "c @ (?mid @ post) = W @ R" by simp
      from app_eq_cases [OF this] obtain e where
        "(c = W @ e \<and> e @ ?mid @ post = R) \<or> (c @ e = W \<and> ?mid @ post = e @ R)" by blast
      then show False
      proof
        assume "c = W @ e \<and> e @ ?mid @ post = R"
        then have "c @ (pfx @ rest) @ post = W @ (e @ (pfx @ rest) @ post)" by simp
        with W have "matches_at True OLD_BLOCK_RE (c @ (pfx @ rest) @ post)"
          unfolding matches_at_def by blast
        with nopre h False show False by blast
      next
        assume k: "c @ e = W \<and> ?mid @ post = e @ R"
        show False
        proof (cases e)
          case Nil
          with k have "c @ (pfx @ rest) @ post = W @ ((pfx @ rest) @ post)" by simp
          with W have "matches_at True OLD_BLOCK_RE (c @ (pfx @ rest) @ post)"
            unfolding matches_at_def by blast
          with nopre h False show False by blast
        next
          case (Cons z e')
          with k t(1) have z: "z = CHR ''|''" by simp
          from k Cons z have eq: "W = c @ CHR ''|'' # e'" by simp
          from k Cons z have eR: "CHR ''|'' # e' @ R
              = pfx @ CHR ''I'' # A @ CHR ''|'' # iaid @ CHR ''}'' # (B @ post)" by simp
          from no_match_across [OF W pfx eq False eR A(2) iaid(2)] show False .
        qed
      qed
    qed
  next
    assume h: "pre @ c = a \<and> ?mid @ post = c @ T"
    then have "?mid @ post = c @ T" by simp
    from app_eq_cases [OF this] obtain d where
      "(?mid = c @ d \<and> d @ post = T) \<or> (?mid @ d = c \<and> post = d @ T)" by blast
    then show False
    proof
      assume k: "?mid = c @ d \<and> d @ post = T"
      show False
      proof (cases d)
        case Nil
        with k have "post = [] @ T" by simp
        with nopost have "\<not> matches_at True OLD_BLOCK_RE T" by blast
        with W T show False unfolding matches_at_def by blast
      next
        case (Cons z d')
        with k T W' have z: "z = CHR ''|''" by simp
        from k Cons z t(1) have e1: "c @ CHR ''|'' # d'
            = CHR ''|'' # (t @ CHR ''I'' # A) @ CHR ''|'' # iaid @ CHR ''}'' # B" by simp
        from t(2) A(1) have X: "CHR ''|'' \<notin> set (t @ CHR ''I'' # A)" by simp
        from bars_of_block [OF e1 X B] show False
        proof
          assume "c = [] \<and> d' = (t @ CHR ''I'' # A) @ CHR ''|'' # iaid @ CHR ''}'' # B"
          with k Cons z T t(1) have
            "pfx @ CHR ''I'' # (A @ CHR ''|'' # iaid @ CHR ''}'' # B @ post) = W @ R" by simp
          from no_match_at_block [OF W pfx this] show False .
        next
          assume "\<exists>i1 i2. iaid = i1 @ i2 \<and> d' = i2 @ CHR ''}'' # B"
          then obtain i1 i2 where i: "iaid = i1 @ i2" "d' = i2 @ CHR ''}'' # B" by blast
          from i(1) iaid(1) have n: "NL \<notin> set i2" by simp
          from k Cons z T i(2) have "CHR ''|'' # i2 @ CHR ''}'' # (B @ post) = W @ R" by simp
          from no_match_in_link [OF W this n] show False .
        qed
      qed
    next
      assume "?mid @ d = c \<and> post = d @ T"
      with nopost have "\<not> matches_at True OLD_BLOCK_RE T" by blast
      with W T show False unfolding matches_at_def by blast
    qed
  qed
qed

lemma set_lstrip: "set (lstrip s) \<subseteq> set s"
  using set_dropWhileD [of _ is_space s] by (auto simp: lstrip_def)

lemma set_strip: "set (strip s) \<subseteq> set s"
  using set_rstrip [of "lstrip s"] set_lstrip [of s] by (auto simp: strip_def)

lemma names_urn_tail: "names urn_tail_rx = {}"
  by (simp add: urn_tail_rx_def)

lemma urn_binds:
  assumes "binds False URN_FROM_IA_RE w g"
  shows "\<exists>p n. g = [(''number'', n), (''prefix'', p)]
           \<and> (\<forall>x\<in>set p. is_alnum_ascii x) \<and> (\<forall>x\<in>set n. is_digit x)"
proof -
  from assms [unfolded URN_unfold] obtain u0 v0 ga gb where
    a0: "g = gb @ ga" "binds False Bol u0 ga"
        "binds False (Seq (Group ''prefix'' (Plus is_alnum_ascii))
           (Seq (Lit CHR ''_'') (Seq (Group ''number'' (Plus is_digit)) urn_tail_rx))) v0 gb"
    by (rule binds_SeqE)
  from a0(2) have ga: "ga = []" by simp
  from a0(3) obtain p r1 g1 g2 where
    a1: "gb = g2 @ g1" "binds False (Group ''prefix'' (Plus is_alnum_ascii)) p g1"
        "binds False (Seq (Lit CHR ''_'') (Seq (Group ''number'' (Plus is_digit)) urn_tail_rx)) r1 g2"
    by (rule binds_SeqE)
  from a1(2) have p: "g1 = [(''prefix'', p)]" "\<forall>x\<in>set p. is_alnum_ascii x" by auto
  from a1(3) obtain c r2 g3 g4 where
    a2: "g2 = g4 @ g3" "binds False (Lit CHR ''_'') c g3"
        "binds False (Seq (Group ''number'' (Plus is_digit)) urn_tail_rx) r2 g4"
    by (rule binds_SeqE)
  from a2(2) have g3: "g3 = []" by simp
  from a2(3) obtain n suf g5 g6 where
    a3: "g4 = g6 @ g5" "binds False (Group ''number'' (Plus is_digit)) n g5"
        "binds False urn_tail_rx suf g6"
    by (rule binds_SeqE)
  from a3(2) have n: "g5 = [(''number'', n)]" "\<forall>x\<in>set n. is_digit x" by auto
  from binds_plain(1) [OF names_urn_tail a3(3)] have g6: "g6 = []" .
  have "g = [(''number'', n), (''prefix'', p)]"
    by (simp add: a0(1) ga a1(1) p(1) a2(1) g3 a3(1) n(1) g6)
  with p(2) n(2) show ?thesis by blast
qed

lemma derive_urn_chars:
  assumes "derive_delpher_urn s = Inr u"
  shows "\<forall>x\<in>set u. is_alnum_ascii x \<or> x = CHR '':''"
proof -
  from assms obtain m where m: "py_match False URN_FROM_IA_RE (strip s) = Some m"
    and u: "u = fmt (group m ''prefix'') @ '':'' @ fmt (group m ''number'')"
    by (auto simp: derive_delpher_urn_def split: if_splits option.splits)
  from m obtain p' s' g rest where
    r: "rx_match False URN_FROM_IA_RE (0, strip s, []) = (p', s', g) # rest" "m_groups m = g"
    by (auto simp: py_match_def split: list.splits)
  from r(1) have "(p', s', g) \<in> set (rx_match False URN_FROM_IA_RE (0, strip s, []))" by simp
  from rx_match_binds [OF this] obtain w g0 where b: "g = g0 @ []" "binds False URN_FROM_IA_RE w g0"
    by blast
  from urn_binds [OF b(2)] obtain p n where
    g0: "g0 = [(''number'', n), (''prefix'', p)]"
        "\<forall>x\<in>set p. is_alnum_ascii x" "\<forall>x\<in>set n. is_digit x" by blast
  from b(1) g0(1) r(2) have "group m ''prefix'' = Some p" "group m ''number'' = Some n"
    by (simp_all add: group_def)
  with u have "u = p @ CHR '':'' # n" by (simp add: fmt_def)
  with g0(2,3) digit_alnum show ?thesis by auto
qed

lemma derive_urn_no_bar: "derive_delpher_urn s = Inr u \<Longrightarrow> CHR ''|'' \<notin> set u"
proof
  assume a: "derive_delpher_urn s = Inr u" and b: "CHR ''|'' \<in> set u"
  from derive_urn_chars [OF a] b have "is_alnum_ascii CHR ''|'' \<or> CHR ''|'' = CHR '':''" by blast
  then show False by (simp add: is_alnum_ascii_def is_digit_def code_def)
qed

lemma build_block_shape:
  assumes b: "build_new_source_block ia pdf = Inr nb" and pdf: "CHR ''|'' \<notin> set pdf"
  shows "\<exists>A B. nb = CHR ''I'' # A @ CHR ''|'' # ia @ CHR ''}'' # B
            \<and> CHR ''|'' \<notin> set A \<and> CHR ''}'' \<notin> set A \<and> CHR ''|'' \<notin> set B"
proof -
  from b obtain urn where urn: "derive_delpher_urn ia = Inr urn"
    and nb: "nb = join [NL]
                      [''Internet Archive'',
                       ''* Website: '' @ (''{{Internet Archive link|'' @ ia @ ''}}''),
                       ''* Direct download: '' @ strip pdf,
                       ''Delpher'',
                       ''* Website: '' @ (''https://resolver.kb.nl/resolve?urn='' @ urn),
                       ''* Direct download: ''
                         @ (''https://resolver.kb.nl/resolve?urn='' @ urn @ '':mpeg21:pdf'')]"
    by (auto simp: build_new_source_block_def Let_def split: if_splits option.splits sum.splits)
  let ?A = "''nternet Archive'' @ [NL] @ ''* Website: {{Internet Archive link''"
  let ?B = "''}'' @ [NL] @ ''* Direct download: '' @ strip pdf @ [NL] @ ''Delpher'' @ [NL]
            @ ''* Website: https://resolver.kb.nl/resolve?urn='' @ urn @ [NL]
            @ ''* Direct download: https://resolver.kb.nl/resolve?urn='' @ urn @ '':mpeg21:pdf''"
  have e: "nb = CHR ''I'' # ?A @ CHR ''|'' # ia @ CHR ''}'' # ?B" by (simp add: nb)
  have a: "CHR ''|'' \<notin> set ?A" "CHR ''}'' \<notin> set ?A" by simp_all
  from pdf set_strip [of pdf] have "CHR ''|'' \<notin> set (strip pdf)" by blast
  with derive_urn_no_bar [OF urn] have bb: "CHR ''|'' \<notin> set ?B" by simp
  from e a bb show ?thesis by blast
qed

lemma transform_many:
  "finditer True OLD_BLOCK_RE s = m1 # m2 # ms \<Longrightarrow> transform_wikitext s = Inl AmbiguousEditTarget"
  by (simp add: transform_wikitext_def)

lemma finditer_none_old:
  assumes "\<forall>a t. y = a @ t \<longrightarrow> \<not> matches_at True OLD_BLOCK_RE t"
  shows "finditer True OLD_BLOCK_RE y = []"
  unfolding finditer_def using finditer_none [OF anchor_free_OLD assms] .

lemma transform_result_clean:
  assumes tr: "transform_wikitext s = Inr y"
  shows "finditer True OLD_BLOCK_RE y = []"
proof (cases "finditer True OLD_BLOCK_RE s")
  case Nil
  from transform_none [OF Nil] tr have "y = s" by simp
  with Nil show ?thesis by simp
next
  case (Cons m ms)
  show ?thesis
  proof (cases ms)
    case (Cons m2 ms')
    with \<open>finditer True OLD_BLOCK_RE s = m # ms\<close> transform_many [of s m m2 ms'] tr
    show ?thesis by simp
  next
    case Nil
    with Cons have one: "finditer True OLD_BLOCK_RE s = [m]" by simp
    from finditer_old_one [OF one] obtain pre w post where
      d: "s = pre @ w @ post" "m_start m = length pre" "m_end m = length pre + length w"
         "binds True OLD_BLOCK_RE w (m_groups m)"
         "\<forall>a c. pre = a @ c \<and> c \<noteq> [] \<longrightarrow> \<not> matches_at True OLD_BLOCK_RE (c @ w @ post)"
         "\<forall>a t. post = a @ t \<longrightarrow> \<not> matches_at True OLD_BLOCK_RE t" by blast
    from old_block_binds [OF d(4)] obtain pfx hd sp i0 tl ph p0 pt where
      b: "w = pfx @ hd @ CHR ''|'' # sp @ i0 @ tl @ ph @ p0 @ pt"
         "m_groups m = [(''pdf'', p0), (''iaid'', i0), (''prefix'', pfx)]"
         "accepts True old_prefix_rx pfx" "\<forall>x\<in>set i0. iaid_char x"
         "accepts True pdf_url_rx p0" by blast
    have g: "group m ''prefix'' = Some pfx" "group m ''iaid'' = Some i0" "group m ''pdf'' = Some p0"
      by (simp_all add: group_def b(2))
    have tk: "take (m_start m) s = pre" by (simp add: d(1,2))
    have "drop (length pre + length w) (pre @ w @ post) = post" by simp
    then have dr: "drop (m_end m) s = post" by (simp only: d(1) d(3))
    note r = transform_one [OF one g, unfolded tk dr]
    from r tr obtain urn where urn: "derive_delpher_urn (strip i0) = Inr urn"
      by (cases "derive_delpher_urn (strip i0)") auto
    from r tr urn obtain nb where
      nb: "build_new_source_block (strip i0) (strip p0) = Inr nb"
      by (cases "build_new_source_block (strip i0) (strip p0)") auto
    from r tr urn nb have y: "y = pre @ pfx @ nb @ [NL] @ post" by simp
    from not_may_notin [OF b(5) pdf_url_may] set_strip [of p0]
    have pb: "CHR ''|'' \<notin> set (strip p0)" by blast
    from build_block_shape [OF nb pb] obtain A B where
      s: "nb = CHR ''I'' # A @ CHR ''|'' # strip i0 @ CHR ''}'' # B"
         "CHR ''|'' \<notin> set A" "CHR ''}'' \<notin> set A" "CHR ''|'' \<notin> set B" by blast
    from iaid_char_set [OF b(4)] set_strip [of i0]
    have i: "NL \<notin> set (strip i0)" "CHR ''}'' \<notin> set (strip i0)" by blast+
    from s(4) have B: "CHR ''|'' \<notin> set (B @ [NL])" by simp
    let ?rest = "hd @ CHR ''|'' # sp @ i0 @ tl @ ph @ p0 @ pt"
    from d(5) b(1) have nopre:
      "\<forall>a c. pre = a @ c \<and> c \<noteq> [] \<longrightarrow> \<not> matches_at True OLD_BLOCK_RE (c @ (pfx @ ?rest) @ post)"
      by simp
    have "\<forall>a t. y = a @ t \<longrightarrow> \<not> matches_at True OLD_BLOCK_RE t"
    proof (intro allI impI)
      fix a t assume "y = a @ t"
      with y s(1) have
        "pre @ (pfx @ CHR ''I'' # A @ CHR ''|'' # strip i0 @ CHR ''}'' # (B @ [NL])) @ post = a @ t"
        by simp
      from spliced_no_match [OF b(3) s(2) s(3) i B nopre d(6) this]
      show "\<not> matches_at True OLD_BLOCK_RE t" .
    qed
    from finditer_none_old [OF this] show ?thesis .
  qed
qed




section \<open>Claims\<close>

text \<open>
  C8. A page body with two or more matches of the old source block makes
  \<open>transform_wikitext\<close> fail with \<open>AmbiguousEditTarget\<close>; no text is returned, so no
  occurrence is chosen and the input is not altered.
\<close>

theorem transform_ambiguous:
  "1 < length (finditer True OLD_BLOCK_RE text) \<Longrightarrow> transform_wikitext text = Inl AmbiguousEditTarget"
  by (auto simp: transform_wikitext_def Let_def)

theorem transform_ambiguous_witness:
  "1 < length (finditer True OLD_BLOCK_RE two_blocks_example)
   \<and> transform_wikitext two_blocks_example = Inl AmbiguousEditTarget"
proof -
  have h: "1 < length (finditer True OLD_BLOCK_RE two_blocks_example)"
    by code_simp
  show ?thesis using h transform_ambiguous [OF h] by simp
qed


text \<open>
  C4. For an archive identifier of the shape PREFIX_NUMBER[_suffix] (PREFIX a non-empty
  run of ASCII letters and digits, NUMBER a non-empty run of digits, the optional suffix
  an underscore followed by characters other than a line break),
  \<open>derive_delpher_urn\<close> returns PREFIX:NUMBER, with NUMBER as it stands, leading zeros
  included. The result is a function of the identifier alone. In particular
  \<open>ddd_010124175_mpeg21\<close> gives \<open>ddd:010124175\<close>.
\<close>

theorem derive_urn_wellformed:
  assumes "p \<noteq> []" "\<forall>x\<in>set p. is_alnum_ascii x"
      and "n \<noteq> []" "\<forall>x\<in>set n. is_digit x"
      and "suf = [] \<or> (\<exists>r. suf = ''_'' @ r \<and> NL \<notin> set r)"
  shows "derive_delpher_urn (p @ ''_'' @ n @ suf) = Inr (p @ '':'' @ n)"
  using derive_urn_ok [of p n suf] assms by simp

theorem derive_urn_wellformed_witness:
  "derive_delpher_urn ''ddd_010124175_mpeg21'' = Inr ''ddd:010124175''"
proof -
  have h1: "''ddd'' \<noteq> []" and h2: "\<forall>x\<in>set ''ddd''. is_alnum_ascii x"
    by (simp_all add: is_alnum_ascii_def is_digit_def code_def)
  have h3: "''010124175'' \<noteq> []" and h4: "\<forall>x\<in>set ''010124175''. is_digit x"
    by (simp_all add: is_digit_def code_def)
  have h5: "''_mpeg21'' = [] \<or> (\<exists>r. ''_mpeg21'' = ''_'' @ r \<and> NL \<notin> set r)" by simp
  from derive_urn_wellformed [OF h1 h2 h3 h4 h5] show ?thesis by simp
qed

text \<open>
  C5, as stated: every input that does not have the shape of the pattern makes
  \<open>derive_delpher_urn\<close> fail. The code strips surrounding whitespace before it matches, so
  an identifier with a leading blank does not have the shape and is still accepted.
\<close>

theorem derive_urn_unstripped_counterexample:
  "\<not> urn_shape '' ddd_1'' \<and> derive_delpher_urn '' ddd_1'' = Inr ''ddd:1''"
  by code_simp

text \<open>
  C5, amended: every input whose whitespace-stripped form does not have the shape of the
  pattern makes \<open>derive_delpher_urn\<close> fail with \<open>MalformedIdentifier\<close>; no result is
  returned for it.
\<close>

theorem derive_urn_malformed:
  assumes "\<not> urn_shape (strip s)"
  shows "derive_delpher_urn s = Inl MalformedIdentifier"
  using assms by (rule derive_urn_fail)

theorem derive_urn_malformed_witness:
  "\<not> urn_shape (strip ''nodigits'') \<and> derive_delpher_urn ''nodigits'' = Inl MalformedIdentifier
   \<and> \<not> urn_shape (strip ''123_abc'') \<and> derive_delpher_urn ''123_abc'' = Inl MalformedIdentifier"
proof -
  have h1: "\<not> urn_shape (strip ''nodigits'')" by code_simp
  have h2: "\<not> urn_shape (strip ''123_abc'')" by code_simp
  show ?thesis using h1 h2 derive_urn_malformed [OF h1] derive_urn_malformed [OF h2] by simp
qed

text \<open>
  C3, as stated: a slice with head = 0 fails with \<open>SliceOutOfRange\<close>, a head greater than
  the number of records fails with \<open>SliceOutOfRange\<close>, head and range together fail with
  \<open>ConflictingSliceMode\<close>, and no invalid bound is ignored. In the code \<open>HEAD = 0\<close> is the
  value of an unset head, so with no range the records pass through; a negative head is
  taken for unset as well; and an empty list of records is returned before head and
  range are looked at.
\<close>

theorem slice_head_zero_counterexample:
  "apply_slice_records 0 '''' [example_record] = Inr [example_record]
   \<and> apply_slice_records (- 5) '''' [example_record] = Inr [example_record]
   \<and> apply_slice_records 5 ''1-2'' ([] :: wrec list) = Inr []"
  by (simp add: apply_slice_records_def)

text \<open>
  C3, amended: on a non-empty list of records and for a head that is not negative. A
  positive head together with a range fails with \<open>ConflictingSliceMode\<close>. With no range, a
  head of 0 counts as not set and the records pass through, a head greater than the
  number of records fails with \<open>SliceOutOfRange\<close>, and any other head returns exactly that
  many leading records. With a range and a head of 0, a range that is not of the form
  N-M fails with \<open>InvalidRangeFormat\<close>; otherwise, with N and M the two numbers that the
  pattern captured, the result is exactly the records N to M when
  1 \<le> N \<le> M \<le> number of records, and \<open>SliceOutOfRange\<close> in every other case: a bound
  is never clamped and never ignored.
\<close>

theorem slice_head_modes:
  assumes "records \<noteq> []" and "0 \<le> HEAD"
  shows "(strip RANGE \<noteq> [] \<and> 0 < HEAD \<longrightarrow>
            apply_slice_records HEAD RANGE records = Inl ConflictingSliceMode)
       \<and> (strip RANGE = [] \<longrightarrow>
            apply_slice_records HEAD RANGE records =
              (if HEAD = 0 then Inr records
               else if int (length records) < HEAD then Inl SliceOutOfRange
               else Inr (take (nat HEAD) records)))
       \<and> (strip RANGE \<noteq> [] \<and> HEAD = 0 \<longrightarrow>
            (case py_match False RANGE_RE RANGE of
               None \<Rightarrow> apply_slice_records HEAD RANGE records = Inl InvalidRangeFormat
             | Some m \<Rightarrow>
                 (\<exists>d1 d2. group m ''1'' = Some d1 \<and> group m ''2'' = Some d2
                    \<and> apply_slice_records HEAD RANGE records =
                        (if 1 \<le> int_of_digits d1 \<and> int_of_digits d1 \<le> int_of_digits d2
                            \<and> int_of_digits d2 \<le> int (length records)
                         then Inr (slice records (nat (int_of_digits d1 - 1)) (nat (int_of_digits d2)))
                         else Inl SliceOutOfRange))))"
proof -
  have r: "(RANGE \<noteq> [] \<and> strip RANGE \<noteq> []) = (strip RANGE \<noteq> [])"
    using strip_Nil by auto
  have c1: "strip RANGE \<noteq> [] \<and> 0 < HEAD \<longrightarrow>
            apply_slice_records HEAD RANGE records = Inl ConflictingSliceMode"
    using assms unfolding apply_slice_records_def Let_def r by auto
  have c2: "strip RANGE = [] \<longrightarrow>
            apply_slice_records HEAD RANGE records =
              (if HEAD = 0 then Inr records
               else if int (length records) < HEAD then Inl SliceOutOfRange
               else Inr (take (nat HEAD) records))"
    using assms unfolding apply_slice_records_def Let_def r by auto
  have c3: "strip RANGE \<noteq> [] \<and> HEAD = 0 \<longrightarrow>
            (case py_match False RANGE_RE RANGE of
               None \<Rightarrow> apply_slice_records HEAD RANGE records = Inl InvalidRangeFormat
             | Some m \<Rightarrow>
                 (\<exists>d1 d2. group m ''1'' = Some d1 \<and> group m ''2'' = Some d2
                    \<and> apply_slice_records HEAD RANGE records =
                        (if 1 \<le> int_of_digits d1 \<and> int_of_digits d1 \<le> int_of_digits d2
                            \<and> int_of_digits d2 \<le> int (length records)
                         then Inr (slice records (nat (int_of_digits d1 - 1)) (nat (int_of_digits d2)))
                         else Inl SliceOutOfRange)))"
  proof (intro impI)
    assume a: "strip RANGE \<noteq> [] \<and> HEAD = 0"
    show "case py_match False RANGE_RE RANGE of
               None \<Rightarrow> apply_slice_records HEAD RANGE records = Inl InvalidRangeFormat
             | Some m \<Rightarrow>
                 (\<exists>d1 d2. group m ''1'' = Some d1 \<and> group m ''2'' = Some d2
                    \<and> apply_slice_records HEAD RANGE records =
                        (if 1 \<le> int_of_digits d1 \<and> int_of_digits d1 \<le> int_of_digits d2
                            \<and> int_of_digits d2 \<le> int (length records)
                         then Inr (slice records (nat (int_of_digits d1 - 1)) (nat (int_of_digits d2)))
                         else Inl SliceOutOfRange))"
    proof (cases "py_match False RANGE_RE RANGE")
      case None
      with a assms(1) show ?thesis unfolding apply_slice_records_def Let_def r by simp
    next
      case (Some m)
      from range_groups [OF Some] obtain d1 d2 where
        g: "group m ''1'' = Some d1" "group m ''2'' = Some d2" by blast
      have "apply_slice_records HEAD RANGE records =
              (if 1 \<le> int_of_digits d1 \<and> int_of_digits d1 \<le> int_of_digits d2
                  \<and> int_of_digits d2 \<le> int (length records)
               then Inr (slice records (nat (int_of_digits d1 - 1)) (nat (int_of_digits d2)))
               else Inl SliceOutOfRange)"
        using a assms(1) unfolding apply_slice_records_def Let_def r by (auto simp: Some g)
      with g Some show ?thesis by simp
    qed
  qed
  from c1 c2 c3 show ?thesis by blast
qed

theorem slice_head_modes_witness:
  "apply_slice_records 4 '''' three_records = Inl SliceOutOfRange
   \<and> apply_slice_records 1 ''1-1'' three_records = Inl ConflictingSliceMode
   \<and> apply_slice_records 0 '''' three_records = Inr three_records
   \<and> apply_slice_records 2 '''' three_records = Inr (take 2 three_records)
   \<and> apply_slice_records 0 ''2-3'' three_records = Inr (slice three_records 1 3)
   \<and> apply_slice_records 0 ''2-4'' three_records = Inl SliceOutOfRange
   \<and> apply_slice_records 0 ''0-2'' three_records = Inl SliceOutOfRange
   \<and> apply_slice_records 0 ''3-2'' three_records = Inl SliceOutOfRange
   \<and> apply_slice_records 0 ''2..3'' three_records = Inl InvalidRangeFormat"
proof -
  have ne: "three_records \<noteq> []" by (simp add: three_records_def)
  have len: "int (length three_records) = 3" by (simp add: three_records_def)
  have s0: "strip '''' = []" by (rule strip_Nil)
  have s1: "strip ''1-1'' \<noteq> []" "strip ''2-3'' \<noteq> []" "strip ''2-4'' \<noteq> []"
    "strip ''0-2'' \<noteq> []" "strip ''3-2'' \<noteq> []" "strip ''2..3'' \<noteq> []"
    by (simp_all add: strip_def rstrip_def lstrip_def is_space_def code_def)
  have m1: "py_match False RANGE_RE ''2-3''
              = Some \<lparr>m_start = 0, m_end = 3, m_groups = [(''2'', ''3''), (''1'', ''2'')]\<rparr>"
    by code_simp
  have m2: "py_match False RANGE_RE ''2-4''
              = Some \<lparr>m_start = 0, m_end = 3, m_groups = [(''2'', ''4''), (''1'', ''2'')]\<rparr>"
    by code_simp
  have m3: "py_match False RANGE_RE ''0-2''
              = Some \<lparr>m_start = 0, m_end = 3, m_groups = [(''2'', ''2''), (''1'', ''0'')]\<rparr>"
    by code_simp
  have m4: "py_match False RANGE_RE ''3-2''
              = Some \<lparr>m_start = 0, m_end = 3, m_groups = [(''2'', ''2''), (''1'', ''3'')]\<rparr>"
    by code_simp
  have m5: "py_match False RANGE_RE ''2..3'' = None" by code_simp
  have d: "int_of_digits ''0'' = 0" "int_of_digits ''2'' = 2" "int_of_digits ''3'' = 3"
    "int_of_digits ''4'' = 4"
    by (simp_all add: int_of_digits_def code_def)
  have w1: "apply_slice_records 4 '''' three_records = Inl SliceOutOfRange"
    using slice_head_modes [OF ne, of 4 "''''"] by (simp add: s0 len)
  have w2: "apply_slice_records 1 ''1-1'' three_records = Inl ConflictingSliceMode"
    using slice_head_modes [OF ne, of 1 "''1-1''"] s1(1) by simp
  have w3: "apply_slice_records 0 '''' three_records = Inr three_records"
    using slice_head_modes [OF ne, of 0 "''''"] by (simp add: s0)
  have w4: "apply_slice_records 2 '''' three_records = Inr (take 2 three_records)"
    using slice_head_modes [OF ne, of 2 "''''"] by (simp add: s0 len)
  have w5: "apply_slice_records 0 ''2-3'' three_records = Inr (slice three_records 1 3)"
    using slice_head_modes [OF ne, of 0 "''2-3''"] s1(2) by (simp add: m1 group_def d len)
  have w6: "apply_slice_records 0 ''2-4'' three_records = Inl SliceOutOfRange"
    using slice_head_modes [OF ne, of 0 "''2-4''"] s1(3) by (simp add: m2 group_def d len)
  have w7: "apply_slice_records 0 ''0-2'' three_records = Inl SliceOutOfRange"
    using slice_head_modes [OF ne, of 0 "''0-2''"] s1(4) by (simp add: m3 group_def d len)
  have w8: "apply_slice_records 0 ''3-2'' three_records = Inl SliceOutOfRange"
    using slice_head_modes [OF ne, of 0 "''3-2''"] s1(5) by (simp add: m4 group_def d len)
  have w9: "apply_slice_records 0 ''2..3'' three_records = Inl InvalidRangeFormat"
    using slice_head_modes [OF ne, of 0 "''2..3''"] s1(6) by (simp add: m5)
  from w1 w2 w3 w4 w5 w6 w7 w8 w9 show ?thesis by blast
qed

text \<open>
  C10. \<open>write_status_to_excel\<close> called with an empty status map returns at once: it adds
  no event, so the spreadsheet is neither looked for, read nor written.
\<close>

theorem write_status_empty_map:
  "write_status_to_excel pd w cfg [] h = (Inr (), h)"
  by (simp add: write_status_to_excel_def)

text \<open>
  C6. The record loader is to fail with \<open>InvalidIdentifierValue\<close> when a cell of the
  identifier column is not a positive integer. For the cell 12.5 the code does not fail:
  the validation only rejects NaN and values \<open>\<le> 0\<close>, and \<open>astype(int)\<close> then cuts the
  fraction off, so the loader returns a record for page 12.
\<close>

theorem get_records_accepts_fraction:
  "get_records plain_pandas (steady_world (\<lambda>pid. None) fraction_sheet [''Sheet1'']) default_config []
   = (Inr [\<lparr>pageid = 12, mid = ''M12'', title = None\<rparr>], [PathExists, ReadExcel])"
  by code_simp

text \<open>
  C2. After an auth/token error the save is to be retried once with a fresh token and
  without logging in again. The code logs in again before it fetches the new token: in a
  world whose first edit is refused with \<open>badtoken\<close> the calls of one save are token, edit,
  login, token, edit.
\<close>

theorem save_retry_logs_in_again:
  "save_wikitext_by_pageid stale_token_world 5 ''new text'' (Some ''2025-09-18T00:00:00Z'') []
   = (Inr True,
      [GetToken, ApiEdit 5 ''new text'' ''csrf-token'' ''2025-09-18T00:00:00Z'',
       Login,
       GetToken, ApiEdit 5 ''new text'' ''csrf-token'' ''2025-09-18T00:00:00Z''])"
  by code_simp



text \<open>
  C7, as stated: on a body with exactly one match \<open>transform_wikitext\<close> returns the
  spliced text. A body whose only old block names an identifier without a number, or
  links the PDF in capitals, has exactly one match, and the block builder refuses it: the
  result is \<open>MalformedIdentifier\<close> or \<open>MalformedUrl\<close> and no text.
\<close>

theorem transform_refused_counterexample:
  "length (finditer True OLD_BLOCK_RE nodigits_page) = 1
   \<and> transform_wikitext nodigits_page = Inl MalformedIdentifier
   \<and> length (finditer True OLD_BLOCK_RE upper_url_page) = 1
   \<and> transform_wikitext upper_url_page = Inl MalformedUrl"
  by code_simp

text \<open>
  C7, amended: on a body in which the scan finds no old source block,
  \<open>transform_wikitext\<close> returns the body as it is. On a body with exactly one match the body
  is \<open>pre @ (pfx @ rest) @ post\<close>, the match spans \<open>pfx @ rest\<close> and \<open>pfx\<close> is the source
  header line held by the group \<open>prefix\<close>. If the identifier deriver refuses the stripped
  identifier the result is \<open>MalformedIdentifier\<close>; if the stripped link is not a direct
  download link the result is \<open>MalformedUrl\<close>; otherwise the result is \<open>pre\<close>, the header
  \<open>pfx\<close>, the six lines of the replacement block for the stripped identifier, the stripped
  link and the derived URN, a line break and \<open>post\<close>: the text before and after the span
  is kept.
\<close>

theorem transform_splices:
  "(finditer True OLD_BLOCK_RE text = [] \<longrightarrow> transform_wikitext text = Inr text)
   \<and> (finditer True OLD_BLOCK_RE text = [m] \<longrightarrow>
       (\<exists>pre pfx rest post iaid0 pdf0.
           text = pre @ (pfx @ rest) @ post
         \<and> m_start m = length pre \<and> m_end m = length pre + length (pfx @ rest)
         \<and> group m ''prefix'' = Some pfx \<and> group m ''iaid'' = Some iaid0
         \<and> group m ''pdf'' = Some pdf0
         \<and> accepts True old_prefix_rx pfx
         \<and> transform_wikitext text =
             (case derive_delpher_urn (strip iaid0) of
                Inl e \<Rightarrow> Inl MalformedIdentifier
              | Inr urn \<Rightarrow>
                  if py_match False PDF_URL_RE (strip pdf0) = None then Inl MalformedUrl
                  else Inr (pre @ pfx @ replacement_block (strip iaid0) (strip pdf0) urn
                            @ [NL] @ post))))"
  using transform_none transform_spliced_block by blast

theorem transform_splices_witness:
  "finditer True OLD_BLOCK_RE ''no source block'' = []
   \<and> transform_wikitext ''no source block'' = Inr ''no source block''
   \<and> finditer True OLD_BLOCK_RE page_example =
       [\<lparr>m_start = 14, m_end = 148,
         m_groups = [(''pdf'', ''https://archive.org/download/ddd_010124175_mpeg21/ddd_010124175_mpeg21.pdf''),
                     (''iaid'', ''ddd_010124175_mpeg21''), (''prefix'', ''|source ='' @ [NL])]\<rparr>]
   \<and> transform_wikitext page_example =
       Inr (''{{Information'' @ [NL] @ (''|source ='' @ [NL]) @ new_block_example @ [NL]
            @ ''|author = KB'' @ [NL] @ ''}}'')"
proof -
  let ?m = "\<lparr>m_start = 14, m_end = 148,
         m_groups = [(''pdf'', ''https://archive.org/download/ddd_010124175_mpeg21/ddd_010124175_mpeg21.pdf''),
                     (''iaid'', ''ddd_010124175_mpeg21''), (''prefix'', ''|source ='' @ [NL])]\<rparr>"
  have h0: "finditer True OLD_BLOCK_RE ''no source block'' = []" by code_simp
  have h1: "finditer True OLD_BLOCK_RE page_example = [?m]" by code_simp
  from transform_splices [of "''no source block''"] h0
  have r0: "transform_wikitext ''no source block'' = Inr ''no source block''" by blast
  from transform_splices [of page_example ?m] h1 obtain pre pfx rest post iaid0 pdf0 where
    d: "page_example = pre @ (pfx @ rest) @ post"
       "m_start ?m = length pre" "m_end ?m = length pre + length (pfx @ rest)"
       "group ?m ''prefix'' = Some pfx" "group ?m ''iaid'' = Some iaid0"
       "group ?m ''pdf'' = Some pdf0"
       "transform_wikitext page_example =
             (case derive_delpher_urn (strip iaid0) of
                Inl e \<Rightarrow> Inl MalformedIdentifier
              | Inr urn \<Rightarrow>
                  if py_match False PDF_URL_RE (strip pdf0) = None then Inl MalformedUrl
                  else Inr (pre @ pfx @ replacement_block (strip iaid0) (strip pdf0) urn
                            @ [NL] @ post))"
    by blast
  from d(4,5,6) have g: "pfx = ''|source ='' @ [NL]" "iaid0 = ''ddd_010124175_mpeg21''"
    "pdf0 = ''https://archive.org/download/ddd_010124175_mpeg21/ddd_010124175_mpeg21.pdf''"
    by (simp_all add: group_def)
  have "take (length pre) (pre @ (pfx @ rest) @ post) = pre" by simp
  with d(1,2) have "pre = take 14 page_example" by simp
  moreover have "take 14 page_example = ''{{Information'' @ [NL]" by code_simp
  ultimately have pre: "pre = ''{{Information'' @ [NL]" by simp
  have "drop (length pre + length (pfx @ rest)) (pre @ (pfx @ rest) @ post) = post" by simp
  with d(1,3) have "post = drop 148 page_example" by simp
  moreover have "drop 148 page_example = ''|author = KB'' @ [NL] @ ''}}''" by code_simp
  ultimately have post: "post = ''|author = KB'' @ [NL] @ ''}}''" by simp
  have u: "derive_delpher_urn (strip ''ddd_010124175_mpeg21'') = Inr ''ddd:010124175''"
    by code_simp
  have p: "(py_match False PDF_URL_RE
             (strip ''https://archive.org/download/ddd_010124175_mpeg21/ddd_010124175_mpeg21.pdf'')
            = None) = False"
    by code_simp
  have b: "replacement_block (strip ''ddd_010124175_mpeg21'')
             (strip ''https://archive.org/download/ddd_010124175_mpeg21/ddd_010124175_mpeg21.pdf'')
             ''ddd:010124175''
           = new_block_example"
    by code_simp
  from d(7) have r1: "transform_wikitext page_example =
       Inr (''{{Information'' @ [NL] @ (''|source ='' @ [NL]) @ new_block_example @ [NL]
            @ ''|author = KB'' @ [NL] @ ''}}'')"
    unfolding g pre post by (simp add: u p b)
  from h0 r0 h1 r1 show ?thesis by blast
qed

text \<open>
  C1. Applying \<open>transform_wikitext\<close> to its own result gives that result again: when the
  first application fails there is no text to go on with and the failure stands, and a
  text that it returns holds no match of the old source block, so the second application
  finds nothing and returns it unchanged. This holds for every body, those with at most
  one match included (a body with more matches has no result).
\<close>

theorem transform_idempotent:
  "(case transform_wikitext s of Inl e \<Rightarrow> Inl e | Inr y \<Rightarrow> transform_wikitext y)
     = transform_wikitext s
   \<and> (\<forall>y. transform_wikitext s = Inr y \<longrightarrow> finditer True OLD_BLOCK_RE y = [])"
proof (cases "transform_wikitext s")
  case (Inl e)
  then show ?thesis by simp
next
  case (Inr y)
  from transform_result_clean [OF Inr] have c: "finditer True OLD_BLOCK_RE y = []" .
  from transform_none [OF c] have "transform_wikitext y = Inr y" .
  with Inr c show ?thesis by simp
qed

theorem transform_idempotent_witness:
  "transform_wikitext page_example = Inr new_page_example
   \<and> finditer True OLD_BLOCK_RE new_page_example = []
   \<and> transform_wikitext new_page_example = Inr new_page_example"
proof -
  have h: "transform_wikitext page_example = Inr new_page_example" by code_simp
  from transform_idempotent [of page_example] h show ?thesis by simp
qed

end
